theory Spec2Isabelle
  imports Main
begin

section \<open>Memory, exceptions and the element type\<close>

text \<open>
  The model of \<^verbatim>\<open>advanced-vector/vector.h\<close>.  A pointer \<^verbatim>\<open>T*\<close> is a pair of a block
  address and an element offset inside that block; the null pointer is block 0.

  A block of \<open>n\<close> elements is requested as \<^verbatim>\<open>operator new(n * sizeof(T))\<close>; the product is
  computed in \<^verbatim>\<open>size_t\<close>, taken to have 64 bits, and wraps around.  The members \<^verbatim>\<open>size_\<close>
  and \<^verbatim>\<open>capacity_\<close> are natural numbers.  A vector that owns a block of \<^verbatim>\<open>size_\<close>
  elements of less than \<open>2\<^sup>6\<^sup>3\<close> bytes reaches the wrap-around neither of \<^verbatim>\<open>++size_\<close> nor
  of \<^verbatim>\<open>size_ * 2\<close>.  Past that bound the number of bytes requested for \<^verbatim>\<open>size_ * 2\<close>
  elements is the same whether the factor is reduced modulo \<open>2\<^sup>6\<^sup>4\<close> or not, and a block
  of that many bytes has no room for the element at index \<^verbatim>\<open>size_\<close>.

  The heap is the memory of a program at one element type \<^verbatim>\<open>T\<close>: \<open>sizeof_T\<close> is
  \<^verbatim>\<open>sizeof(T)\<close>.  It records which blocks are allocated (with the number of objects of
  type \<^verbatim>\<open>T\<close> the block has room for) and which cells hold a live \<^verbatim>\<open>T\<close> object (with its
  value).  Deallocating a block does not destroy the objects in it, as in C++: an object
  that was constructed and never destroyed stays in \<open>cells\<close>.

  Every operation of the program that may throw (\<^verbatim>\<open>operator new\<close>, a constructor of
  \<^verbatim>\<open>T\<close> that is not \<^verbatim>\<open>noexcept\<close>, an assignment of \<^verbatim>\<open>T\<close>) takes the next entry of the
  schedule \<open>sched\<close>: \<open>True\<close> means that it throws.  An empty schedule means that nothing
  throws any more.  Theorems quantify over all schedules.
\<close>

type_synonym addr = nat
type_synonym ptr = "addr \<times> nat"

definition nullptr :: addr where
  "nullptr = 0"

datatype exn = Bad_alloc | Ctor_throw | Assign_throw

text \<open>
  The outcome of a call: it returns a value in a new state, it throws in a new state, or
  its behaviour is undefined (a precondition of C++ is violated: an access outside a
  block, the destruction of a cell that holds no object, a double free).
\<close>

datatype ('s, 'r) res = Ret 's 'r | Exc 's exn | UB

record 'a heap =
  blocks :: "addr \<Rightarrow> nat option"
  cells :: "ptr \<Rightarrow> 'a option"
  next_addr :: addr
  allocs :: nat
  sched :: "bool list"
  sizeof_T :: nat

text \<open>
  What the code asks of the element type \<^verbatim>\<open>T\<close> at compile time
  (\<^verbatim>\<open>std::is_nothrow_move_constructible_v<T>\<close>, \<^verbatim>\<open>std::is_copy_constructible_v<T>\<close>), the
  value a moved-from object is left with, the value the source of a move construction is
  left with when the move constructor throws (C++ does not say which: \<open>move_failed\<close> is any
  function), and the value of a value-initialised object.  Copies, moves and assignments
  that return give the target the value of the source.
\<close>

record 'a traits =
  nothrow_move_constructible :: bool
  copy_constructible :: bool
  moved_from :: "'a \<Rightarrow> 'a"
  move_failed :: "'a \<Rightarrow> 'a"
  value_init :: 'a

definition tick :: "'a heap \<Rightarrow> bool \<times> 'a heap" where
  "tick h = (case sched h of [] \<Rightarrow> (False, h) | b # bs \<Rightarrow> (b, h\<lparr>sched := bs\<rparr>))"

definition ptr_add :: "ptr \<Rightarrow> nat \<Rightarrow> ptr" where
  "ptr_add p k = (fst p, snd p + k)"

definition ptr_sub :: "ptr \<Rightarrow> nat \<Rightarrow> ptr" where
  "ptr_sub p k = (fst p, snd p - k)"

definition in_block :: "'a heap \<Rightarrow> ptr \<Rightarrow> bool" where
  "in_block h p = (case blocks h (fst p) of None \<Rightarrow> False | Some n \<Rightarrow> snd p < n)"

text \<open>Run a cleanup, then rethrow \<open>e\<close> (a destructor on the way out, or a catch block).\<close>

definition rethrow_after :: "('s, unit) res \<Rightarrow> exn \<Rightarrow> ('s, 'r) res" where
  "rethrow_after c e = (case c of Ret s _ \<Rightarrow> Exc s e | Exc s e' \<Rightarrow> Exc s e' | UB \<Rightarrow> UB)"

text \<open>The outcome of a step on the heap, as the outcome of a member function of \<open>v\<close>.\<close>

definition with_vec :: "'v \<Rightarrow> ('h, 'r) res \<Rightarrow> ('h \<times> 'v, 'r) res" where
  "with_vec v r = (case r of Ret h x \<Rightarrow> Ret (h, v) x | Exc h e \<Rightarrow> Exc (h, v) e | UB \<Rightarrow> UB)"

subsection \<open>The allocator\<close>

text \<open>
  \<^verbatim>\<open>operator new(bytes)\<close>: it throws \<^verbatim>\<open>std::bad_alloc\<close> or returns a fresh block of that many
  bytes, which has room for \<open>bytes div sizeof(T)\<close> objects.  A request of 0 bytes returns a
  block that has room for none.
\<close>

definition operator_new :: "'a heap \<Rightarrow> nat \<Rightarrow> ('a heap, addr) res" where
  "operator_new h bytes =
     (case tick h of (b, h1) \<Rightarrow>
        if b then Exc h1 Bad_alloc
        else Ret (h1\<lparr>blocks := (blocks h1)(next_addr h1 \<mapsto> bytes div sizeof_T h1),
                      next_addr := Suc (next_addr h1),
                      allocs := Suc (allocs h1)\<rparr>) (next_addr h1))"

definition operator_delete :: "'a heap \<Rightarrow> addr \<Rightarrow> ('a heap, unit) res" where
  "operator_delete h a =
     (if a = nullptr then Ret h ()
      else case blocks h a of
             None \<Rightarrow> UB
           | Some n \<Rightarrow> Ret (h\<lparr>blocks := (blocks h)(a := None)\<rparr>) ())"

subsection \<open>Operations on one element\<close>

text \<open>
  \<^verbatim>\<open>new (p) T(args...)\<close>: \<open>nothrow\<close> says whether the selected constructor is
  \<^verbatim>\<open>noexcept\<close>, \<open>x\<close> is the value it builds.
\<close>

definition placement_new :: "bool \<Rightarrow> 'a heap \<Rightarrow> ptr \<Rightarrow> 'a \<Rightarrow> ('a heap, unit) res" where
  "placement_new nothrow h p x =
     (if \<not> in_block h p \<or> cells h p \<noteq> None then UB
      else if nothrow then Ret (h\<lparr>cells := (cells h)(p \<mapsto> x)\<rparr>) ()
      else case tick h of (b, h1) \<Rightarrow>
             if b then Exc h1 Ctor_throw
             else Ret (h1\<lparr>cells := (cells h1)(p \<mapsto> x)\<rparr>) ())"

definition copy_construct :: "'a heap \<Rightarrow> ptr \<Rightarrow> ptr \<Rightarrow> ('a heap, unit) res" where
  "copy_construct h src dst =
     (case cells h src of None \<Rightarrow> UB | Some x \<Rightarrow> placement_new False h dst x)"

definition move_construct :: "'a traits \<Rightarrow> 'a heap \<Rightarrow> ptr \<Rightarrow> ptr \<Rightarrow> ('a heap, unit) res" where
  "move_construct tr h src dst =
     (case cells h src of
        None \<Rightarrow> UB
      | Some x \<Rightarrow>
          (case placement_new (nothrow_move_constructible tr) h dst x of
             Ret h1 _ \<Rightarrow> Ret (h1\<lparr>cells := (cells h1)(src \<mapsto> moved_from tr x)\<rparr>) ()
           | Exc h1 e \<Rightarrow> Exc (h1\<lparr>cells := (cells h1)(src \<mapsto> move_failed tr x)\<rparr>) e
           | UB \<Rightarrow> UB))"

definition destroy_at :: "'a heap \<Rightarrow> ptr \<Rightarrow> ('a heap, unit) res" where
  "destroy_at h p =
     (if cells h p = None then UB else Ret (h\<lparr>cells := (cells h)(p := None)\<rparr>) ())"

text \<open>
  \<^verbatim>\<open>*dst = x\<close> for a value \<open>x\<close> held outside the heap.  An assignment that throws is
  taken to leave its operands as they were; no theorem below speaks of the cells after an
  assignment has thrown.
\<close>

definition assign_value :: "'a heap \<Rightarrow> ptr \<Rightarrow> 'a \<Rightarrow> ('a heap, unit) res" where
  "assign_value h dst x =
     (if cells h dst = None then UB
      else case tick h of (b, h1) \<Rightarrow>
             if b then Exc h1 Assign_throw
             else Ret (h1\<lparr>cells := (cells h1)(dst \<mapsto> x)\<rparr>) ())"

definition copy_assign :: "'a heap \<Rightarrow> ptr \<Rightarrow> ptr \<Rightarrow> ('a heap, unit) res" where
  "copy_assign h src dst =
     (case cells h src of None \<Rightarrow> UB | Some x \<Rightarrow> assign_value h dst x)"

definition move_assign :: "'a traits \<Rightarrow> 'a heap \<Rightarrow> ptr \<Rightarrow> ptr \<Rightarrow> ('a heap, unit) res" where
  "move_assign tr h src dst =
     (case cells h src of
        None \<Rightarrow> UB
      | Some x \<Rightarrow>
          (case assign_value h dst x of
             Ret h1 _ \<Rightarrow> Ret (h1\<lparr>cells := (cells h1)(src \<mapsto> moved_from tr x)\<rparr>) ()
           | Exc h1 e \<Rightarrow> Exc h1 e
           | UB \<Rightarrow> UB))"

subsection \<open>The algorithms of the standard library the code calls\<close>

text \<open>\<^verbatim>\<open>std::destroy_n(first, n)\<close>.\<close>

fun destroy_n :: "'a heap \<Rightarrow> ptr \<Rightarrow> nat \<Rightarrow> ('a heap, unit) res" where
  "destroy_n h first 0 = Ret h ()"
| "destroy_n h first (Suc n) =
     (case destroy_at h first of
        Ret h1 _ \<Rightarrow> destroy_n h1 (ptr_add first 1) n
      | Exc h1 e \<Rightarrow> Exc h1 e
      | UB \<Rightarrow> UB)"

text \<open>
  \<^verbatim>\<open>std::uninitialized_copy_n(first, count, d_first)\<close>: when a copy throws, the objects
  built so far (\<open>built\<close> of them, from \<open>d_first\<close>) are destroyed and the exception is
  rethrown.
\<close>

fun uninitialized_copy_loop ::
  "'a heap \<Rightarrow> ptr \<Rightarrow> nat \<Rightarrow> ptr \<Rightarrow> nat \<Rightarrow> ('a heap, unit) res" where
  "uninitialized_copy_loop h first 0 d_first built = Ret h ()"
| "uninitialized_copy_loop h first (Suc count) d_first built =
     (case copy_construct h first (ptr_add d_first built) of
        Ret h1 _ \<Rightarrow> uninitialized_copy_loop h1 (ptr_add first 1) count d_first (Suc built)
      | Exc h1 e \<Rightarrow> rethrow_after (destroy_n h1 d_first built) e
      | UB \<Rightarrow> UB)"

definition uninitialized_copy_n ::
  "'a heap \<Rightarrow> ptr \<Rightarrow> nat \<Rightarrow> ptr \<Rightarrow> ('a heap, unit) res" where
  "uninitialized_copy_n h first count d_first = uninitialized_copy_loop h first count d_first 0"

text \<open>\<^verbatim>\<open>std::uninitialized_move_n(first, count, d_first)\<close>, with the same clean-up.\<close>

fun uninitialized_move_loop ::
  "'a traits \<Rightarrow> 'a heap \<Rightarrow> ptr \<Rightarrow> nat \<Rightarrow> ptr \<Rightarrow> nat \<Rightarrow> ('a heap, unit) res" where
  "uninitialized_move_loop tr h first 0 d_first built = Ret h ()"
| "uninitialized_move_loop tr h first (Suc count) d_first built =
     (case move_construct tr h first (ptr_add d_first built) of
        Ret h1 _ \<Rightarrow> uninitialized_move_loop tr h1 (ptr_add first 1) count d_first (Suc built)
      | Exc h1 e \<Rightarrow> rethrow_after (destroy_n h1 d_first built) e
      | UB \<Rightarrow> UB)"

definition uninitialized_move_n ::
  "'a traits \<Rightarrow> 'a heap \<Rightarrow> ptr \<Rightarrow> nat \<Rightarrow> ptr \<Rightarrow> ('a heap, unit) res" where
  "uninitialized_move_n tr h first count d_first =
     uninitialized_move_loop tr h first count d_first 0"

text \<open>\<^verbatim>\<open>std::uninitialized_move(first, last, d_first)\<close> on a range of one block.\<close>

definition uninitialized_move ::
  "'a traits \<Rightarrow> 'a heap \<Rightarrow> ptr \<Rightarrow> ptr \<Rightarrow> ptr \<Rightarrow> ('a heap, unit) res" where
  "uninitialized_move tr h first last_p d_first =
     (if fst first \<noteq> fst last_p \<or> snd last_p < snd first then UB
      else uninitialized_move_n tr h first (snd last_p - snd first) d_first)"

text \<open>\<^verbatim>\<open>std::uninitialized_value_construct_n(first, n)\<close>.\<close>

fun uninitialized_value_construct_loop ::
  "'a traits \<Rightarrow> 'a heap \<Rightarrow> ptr \<Rightarrow> nat \<Rightarrow> nat \<Rightarrow> ('a heap, unit) res" where
  "uninitialized_value_construct_loop tr h first 0 built = Ret h ()"
| "uninitialized_value_construct_loop tr h first (Suc n) built =
     (case placement_new False h (ptr_add first built) (value_init tr) of
        Ret h1 _ \<Rightarrow> uninitialized_value_construct_loop tr h1 first n (Suc built)
      | Exc h1 e \<Rightarrow> rethrow_after (destroy_n h1 first built) e
      | UB \<Rightarrow> UB)"

definition uninitialized_value_construct_n ::
  "'a traits \<Rightarrow> 'a heap \<Rightarrow> ptr \<Rightarrow> nat \<Rightarrow> ('a heap, unit) res" where
  "uninitialized_value_construct_n tr h first n =
     uninitialized_value_construct_loop tr h first n 0"

text \<open>
  \<^verbatim>\<open>std::move(first, last, d_first)\<close>: \<^verbatim>\<open>while (first != last) *d_first++ = std::move(*first++);\<close>
\<close>

fun move_loop :: "'a traits \<Rightarrow> 'a heap \<Rightarrow> ptr \<Rightarrow> nat \<Rightarrow> ptr \<Rightarrow> ('a heap, unit) res" where
  "move_loop tr h first 0 d_first = Ret h ()"
| "move_loop tr h first (Suc n) d_first =
     (case move_assign tr h first d_first of
        Ret h1 _ \<Rightarrow> move_loop tr h1 (ptr_add first 1) n (ptr_add d_first 1)
      | Exc h1 e \<Rightarrow> Exc h1 e
      | UB \<Rightarrow> UB)"

definition std_move :: "'a traits \<Rightarrow> 'a heap \<Rightarrow> ptr \<Rightarrow> ptr \<Rightarrow> ptr \<Rightarrow> ('a heap, unit) res" where
  "std_move tr h first last_p d_first =
     (if fst first \<noteq> fst last_p \<or> snd last_p < snd first then UB
      else move_loop tr h first (snd last_p - snd first) d_first)"

text \<open>
  \<^verbatim>\<open>std::move_backward(first, last, d_last)\<close>:
  \<^verbatim>\<open>while (first != last) *(--d_last) = std::move(*(--last));\<close>
\<close>

fun move_backward_loop ::
  "'a traits \<Rightarrow> 'a heap \<Rightarrow> nat \<Rightarrow> ptr \<Rightarrow> ptr \<Rightarrow> ('a heap, unit) res" where
  "move_backward_loop tr h 0 last_p d_last = Ret h ()"
| "move_backward_loop tr h (Suc n) last_p d_last =
     (if snd last_p = 0 \<or> snd d_last = 0 then UB
      else case move_assign tr h (ptr_sub last_p 1) (ptr_sub d_last 1) of
             Ret h1 _ \<Rightarrow> move_backward_loop tr h1 n (ptr_sub last_p 1) (ptr_sub d_last 1)
           | Exc h1 e \<Rightarrow> Exc h1 e
           | UB \<Rightarrow> UB)"

definition move_backward ::
  "'a traits \<Rightarrow> 'a heap \<Rightarrow> ptr \<Rightarrow> ptr \<Rightarrow> ptr \<Rightarrow> ('a heap, unit) res" where
  "move_backward tr h first last_p d_last =
     (if fst first \<noteq> fst last_p \<or> snd last_p < snd first then UB
      else move_backward_loop tr h (snd last_p - snd first) last_p d_last)"

section \<open>RawMemory\<close>

record raw_memory =
  buffer_m :: addr
  capacity_m :: nat

text \<open>The product of two \<^verbatim>\<open>size_t\<close> values: the product modulo \<open>2\<^sup>6\<^sup>4\<close>.\<close>

definition size_t_mul :: "nat \<Rightarrow> nat \<Rightarrow> nat" where
  "size_t_mul a b = nat ((int a * int b) mod 2 ^ 64)"

text \<open>
  \<^verbatim>\<open>n != 0 ? static_cast<T*>(operator new(n * sizeof(T))) : nullptr\<close>.
\<close>

definition Allocate :: "'a heap \<Rightarrow> nat \<Rightarrow> ('a heap, addr) res" where
  "Allocate h n =
     (if n \<noteq> 0 then operator_new h (size_t_mul n (sizeof_T h)) else Ret h nullptr)"

definition Deallocate :: "'a heap \<Rightarrow> addr \<Rightarrow> ('a heap, unit) res" where
  "Deallocate h buf = operator_delete h buf"

text \<open>\<^verbatim>\<open>RawMemory() = default\<close>.\<close>

definition RawMemory_default :: raw_memory where
  "RawMemory_default = \<lparr>buffer_m = nullptr, capacity_m = 0\<rparr>"

text \<open>\<^verbatim>\<open>explicit RawMemory(size_t capacity)\<close>.\<close>

definition RawMemory_ctor :: "'a heap \<Rightarrow> nat \<Rightarrow> ('a heap, raw_memory) res" where
  "RawMemory_ctor h capacity =
     (case Allocate h capacity of
        Ret h1 a \<Rightarrow> Ret h1 \<lparr>buffer_m = a, capacity_m = capacity\<rparr>
      | Exc h1 e \<Rightarrow> Exc h1 e
      | UB \<Rightarrow> UB)"

text \<open>\<^verbatim>\<open>~RawMemory()\<close>.\<close>

definition RawMemory_dtor :: "'a heap \<Rightarrow> raw_memory \<Rightarrow> ('a heap, unit) res" where
  "RawMemory_dtor h m = Deallocate h (buffer_m m)"

text \<open>
  \<^verbatim>\<open>operator+(size_t offset)\<close>: \<^verbatim>\<open>buffer_ + offset\<close>.  Its assertion
  \<^verbatim>\<open>offset <= capacity_\<close> is covered by the bounds check made when the pointer is used.
\<close>

definition RawMemory_plus :: "raw_memory \<Rightarrow> nat \<Rightarrow> ptr" where
  "RawMemory_plus m offset = (buffer_m m, offset)"

definition GetAddress :: "raw_memory \<Rightarrow> ptr" where
  "GetAddress m = (buffer_m m, 0)"

text \<open>\<^verbatim>\<open>Swap(RawMemory& other)\<close>: the new \<^verbatim>\<open>*this\<close> and the new \<^verbatim>\<open>other\<close>.\<close>

definition RawMemory_Swap :: "raw_memory \<Rightarrow> raw_memory \<Rightarrow> raw_memory \<times> raw_memory" where
  "RawMemory_Swap m other =
     (m\<lparr>buffer_m := buffer_m other, capacity_m := capacity_m other\<rparr>,
      other\<lparr>buffer_m := buffer_m m, capacity_m := capacity_m m\<rparr>)"

text \<open>\<^verbatim>\<open>RawMemory(RawMemory&& other)\<close>: the new object and the new \<^verbatim>\<open>other\<close>.\<close>

definition RawMemory_move_ctor :: "raw_memory \<Rightarrow> raw_memory \<times> raw_memory" where
  "RawMemory_move_ctor other =
     (\<lparr>buffer_m = buffer_m other, capacity_m = capacity_m other\<rparr>,
      other\<lparr>buffer_m := nullptr, capacity_m := 0\<rparr>)"

text \<open>
  \<^verbatim>\<open>operator=(RawMemory&& rhs)\<close> for two distinct objects: the new \<^verbatim>\<open>*this\<close> and the new
  \<^verbatim>\<open>rhs\<close>.  The function does not call \<^verbatim>\<open>Deallocate\<close>: it only overwrites the two fields.
\<close>

definition RawMemory_move_assign :: "raw_memory \<Rightarrow> raw_memory \<Rightarrow> raw_memory \<times> raw_memory" where
  "RawMemory_move_assign m rhs =
     (m\<lparr>buffer_m := buffer_m rhs, capacity_m := capacity_m rhs\<rparr>,
      rhs\<lparr>buffer_m := nullptr, capacity_m := 0\<rparr>)"

section \<open>Vector\<close>

record vector =
  data_m :: raw_memory
  size_m :: nat

text \<open>
  A reference parameter of type \<^verbatim>\<open>Vector&\<close> either is \<^verbatim>\<open>*this\<close> itself or refers to
  another object (the code compares \<^verbatim>\<open>this\<close> with its address).
\<close>

datatype 'v operand = Self | Other 'v

text \<open>\<^verbatim>\<open>Vector() = default\<close>.\<close>

definition Vector_default :: vector where
  "Vector_default = \<lparr>data_m = RawMemory_default, size_m = 0\<rparr>"

definition Size :: "vector \<Rightarrow> nat" where
  "Size v = size_m v"

definition Capacity :: "vector \<Rightarrow> nat" where
  "Capacity v = capacity_m (data_m v)"

definition cbegin :: "vector \<Rightarrow> ptr" where
  "cbegin v = GetAddress (data_m v)"

definition cend :: "vector \<Rightarrow> ptr" where
  "cend v = RawMemory_plus (data_m v) (size_m v)"

text \<open>\<^verbatim>\<open>explicit Vector(size_t size)\<close>, with \<open>sz\<close> for \<^verbatim>\<open>size\<close>.\<close>

definition Vector_sized :: "'a traits \<Rightarrow> 'a heap \<Rightarrow> nat \<Rightarrow> ('a heap, vector) res" where
  "Vector_sized tr h sz =
     (case RawMemory_ctor h sz of
        Exc h1 e \<Rightarrow> Exc h1 e
      | UB \<Rightarrow> UB
      | Ret h1 d \<Rightarrow>
          (case uninitialized_value_construct_n tr h1 (GetAddress d) sz of
             Ret h2 _ \<Rightarrow> Ret h2 \<lparr>data_m = d, size_m = sz\<rparr>
           | Exc h2 e \<Rightarrow> rethrow_after (RawMemory_dtor h2 d) e
           | UB \<Rightarrow> UB))"

text \<open>\<^verbatim>\<open>Vector(const Vector& other)\<close>.\<close>

definition Vector_copy :: "'a heap \<Rightarrow> vector \<Rightarrow> ('a heap, vector) res" where
  "Vector_copy h other =
     (case RawMemory_ctor h (size_m other) of
        Exc h1 e \<Rightarrow> Exc h1 e
      | UB \<Rightarrow> UB
      | Ret h1 d \<Rightarrow>
          (case uninitialized_copy_n h1 (GetAddress (data_m other)) (size_m other) (GetAddress d) of
             Ret h2 _ \<Rightarrow> Ret h2 \<lparr>data_m = d, size_m = size_m other\<rparr>
           | Exc h2 e \<Rightarrow> rethrow_after (RawMemory_dtor h2 d) e
           | UB \<Rightarrow> UB))"

text \<open>\<^verbatim>\<open>~Vector()\<close>: \<^verbatim>\<open>std::destroy_n(data_.GetAddress(), size_)\<close>, then \<^verbatim>\<open>~RawMemory()\<close>.\<close>

definition Vector_dtor :: "'a heap \<Rightarrow> vector \<Rightarrow> ('a heap, unit) res" where
  "Vector_dtor h v =
     (case destroy_n h (GetAddress (data_m v)) (size_m v) of
        Ret h1 _ \<Rightarrow> RawMemory_dtor h1 (data_m v)
      | Exc h1 e \<Rightarrow> Exc h1 e
      | UB \<Rightarrow> UB)"

text \<open>
  The relocation the growth sites share:
  \<^verbatim>\<open>if constexpr (std::is_nothrow_move_constructible_v<T> || !std::is_copy_constructible_v<T>)\<close>
  \<^verbatim>\<open>uninitialized_move_n\<close>, else \<^verbatim>\<open>uninitialized_copy_n\<close>.
\<close>

definition relocate_n ::
  "'a traits \<Rightarrow> 'a heap \<Rightarrow> ptr \<Rightarrow> nat \<Rightarrow> ptr \<Rightarrow> ('a heap, unit) res" where
  "relocate_n tr h first count d_first =
     (if nothrow_move_constructible tr \<or> \<not> copy_constructible tr
      then uninitialized_move_n tr h first count d_first
      else uninitialized_copy_n h first count d_first)"

text \<open>
  The end of every growth site: \<^verbatim>\<open>std::destroy_n(data_.GetAddress(), size_)\<close>,
  \<^verbatim>\<open>data_.Swap(new_data)\<close>, and the destructor of the local \<^verbatim>\<open>new_data\<close>, which now
  holds the old block.
\<close>

definition adopt :: "'a heap \<Rightarrow> vector \<Rightarrow> raw_memory \<Rightarrow> ('a heap \<times> vector, unit) res" where
  "adopt h v new_data =
     (case destroy_n h (GetAddress (data_m v)) (size_m v) of
        Exc h1 e \<Rightarrow> Exc (h1, v) e
      | UB \<Rightarrow> UB
      | Ret h1 _ \<Rightarrow>
          (case RawMemory_Swap (data_m v) new_data of
             (d, old) \<Rightarrow> with_vec (v\<lparr>data_m := d\<rparr>) (RawMemory_dtor h1 old)))"

text \<open>\<^verbatim>\<open>void Reserve(size_t new_capacity)\<close>.\<close>

definition Reserve :: "'a traits \<Rightarrow> 'a heap \<Rightarrow> vector \<Rightarrow> nat \<Rightarrow> ('a heap \<times> vector, unit) res" where
  "Reserve tr h v new_capacity =
     (if new_capacity \<le> capacity_m (data_m v) then Ret (h, v) ()
      else case RawMemory_ctor h new_capacity of
             Exc h1 e \<Rightarrow> Exc (h1, v) e
           | UB \<Rightarrow> UB
           | Ret h1 new_data \<Rightarrow>
               (case relocate_n tr h1 (GetAddress (data_m v)) (size_m v) (GetAddress new_data) of
                  Exc h2 e \<Rightarrow> with_vec v (rethrow_after (RawMemory_dtor h2 new_data) e)
                | UB \<Rightarrow> UB
                | Ret h2 _ \<Rightarrow> adopt h2 v new_data))"

text \<open>
  The body that \<^verbatim>\<open>PushBack(const T&)\<close>, \<^verbatim>\<open>PushBack(T&&)\<close> and \<^verbatim>\<open>EmplaceBack(Args&&...)\<close>
  repeat word for word up to \<^verbatim>\<open>++size_\<close>; they differ in the constructor that builds
  the new element (\<open>nothrow\<close>: whether it is \<^verbatim>\<open>noexcept\<close>; \<open>x\<close>: the value it builds).
\<close>

definition push_back_body ::
  "bool \<Rightarrow> 'a traits \<Rightarrow> 'a heap \<Rightarrow> vector \<Rightarrow> 'a \<Rightarrow> ('a heap \<times> vector, unit) res" where
  "push_back_body nothrow tr h v x =
     (if size_m v < capacity_m (data_m v) then
        (case placement_new nothrow h (RawMemory_plus (data_m v) (size_m v)) x of
           Ret h1 _ \<Rightarrow> Ret (h1, v\<lparr>size_m := size_m v + 1\<rparr>) ()
         | Exc h1 e \<Rightarrow> Exc (h1, v) e
         | UB \<Rightarrow> UB)
      else
        (case RawMemory_ctor h (if size_m v = 0 then 1 else 2 * size_m v) of
           Exc h1 e \<Rightarrow> Exc (h1, v) e
         | UB \<Rightarrow> UB
         | Ret h1 new_data \<Rightarrow>
             (case placement_new nothrow h1 (RawMemory_plus new_data (size_m v)) x of
                Exc h2 e \<Rightarrow> with_vec v (rethrow_after (RawMemory_dtor h2 new_data) e)
              | UB \<Rightarrow> UB
              | Ret h2 _ \<Rightarrow>
                  (case relocate_n tr h2 (GetAddress (data_m v)) (size_m v) (GetAddress new_data) of
                     Exc h3 e \<Rightarrow> with_vec v (rethrow_after (RawMemory_dtor h3 new_data) e)
                   | UB \<Rightarrow> UB
                   | Ret h3 _ \<Rightarrow>
                       (case adopt h3 v new_data of
                          Ret (h4, v1) _ \<Rightarrow> Ret (h4, v1\<lparr>size_m := size_m v1 + 1\<rparr>) ()
                        | Exc s e \<Rightarrow> Exc s e
                        | UB \<Rightarrow> UB)))))"

text \<open>\<^verbatim>\<open>void PushBack(const T& value)\<close>: the new element is built by the copy constructor.\<close>

definition PushBack :: "'a traits \<Rightarrow> 'a heap \<Rightarrow> vector \<Rightarrow> 'a \<Rightarrow> ('a heap \<times> vector, unit) res" where
  "PushBack tr h v x = push_back_body False tr h v x"

text \<open>\<^verbatim>\<open>void PushBack(T&& value)\<close>: the new element is built by the move constructor.\<close>

definition PushBack_move ::
  "'a traits \<Rightarrow> 'a heap \<Rightarrow> vector \<Rightarrow> 'a \<Rightarrow> ('a heap \<times> vector, unit) res" where
  "PushBack_move tr h v x = push_back_body (nothrow_move_constructible tr) tr h v x"

text \<open>
  \<^verbatim>\<open>T& EmplaceBack(Args&&... args)\<close>; it returns \<^verbatim>\<open>*(data_ + size_ - 1)\<close>, a reference,
  modelled by the pointer to the element.
\<close>

definition EmplaceBack ::
  "bool \<Rightarrow> 'a traits \<Rightarrow> 'a heap \<Rightarrow> vector \<Rightarrow> 'a \<Rightarrow> ('a heap \<times> vector, ptr) res" where
  "EmplaceBack nothrow tr h v x =
     (case push_back_body nothrow tr h v x of
        Ret (h1, v1) _ \<Rightarrow> Ret (h1, v1) (ptr_sub (RawMemory_plus (data_m v1) (size_m v1)) 1)
      | Exc s e \<Rightarrow> Exc s e
      | UB \<Rightarrow> UB)"

text \<open>\<^verbatim>\<open>void PopBack() noexcept\<close>; on an empty vector \<^verbatim>\<open>--size_\<close> wraps around.\<close>

definition PopBack :: "'a heap \<Rightarrow> vector \<Rightarrow> ('a heap \<times> vector, unit) res" where
  "PopBack h v =
     (if size_m v = 0 then UB
      else with_vec (v\<lparr>size_m := size_m v - 1\<rparr>)
             (destroy_at h (RawMemory_plus (data_m v) (size_m v - 1))))"

text \<open>\<^verbatim>\<open>void Resize(size_t new_size)\<close>.\<close>

definition Resize :: "'a traits \<Rightarrow> 'a heap \<Rightarrow> vector \<Rightarrow> nat \<Rightarrow> ('a heap \<times> vector, unit) res" where
  "Resize tr h v new_size =
     (if new_size < size_m v then
        (case destroy_n h (RawMemory_plus (data_m v) new_size) (size_m v - new_size) of
           Ret h1 _ \<Rightarrow> Ret (h1, v\<lparr>size_m := new_size\<rparr>) ()
         | Exc h1 e \<Rightarrow> Exc (h1, v) e
         | UB \<Rightarrow> UB)
      else
        (case Reserve tr h v new_size of
           Exc s e \<Rightarrow> Exc s e
         | UB \<Rightarrow> UB
         | Ret (h1, v1) _ \<Rightarrow>
             (case uninitialized_value_construct_n tr h1 (RawMemory_plus (data_m v1) (size_m v1))
                     (new_size - size_m v1) of
                Ret h2 _ \<Rightarrow> Ret (h2, v1\<lparr>size_m := new_size\<rparr>) ()
              | Exc h2 e \<Rightarrow> Exc (h2, v1) e
              | UB \<Rightarrow> UB)))"

text \<open>
  \<^verbatim>\<open>void Swap(Vector& other) noexcept\<close>: the new \<^verbatim>\<open>*this\<close> and the new \<^verbatim>\<open>other\<close>.
\<close>

definition Vector_Swap :: "vector \<Rightarrow> vector operand \<Rightarrow> vector \<times> vector operand" where
  "Vector_Swap v other =
     (case other of
        Self \<Rightarrow> (v, Self)
      | Other w \<Rightarrow>
          (case RawMemory_Swap (data_m v) (data_m w) of
             (d, d') \<Rightarrow> (v\<lparr>data_m := d, size_m := size_m w\<rparr>,
                         Other (w\<lparr>data_m := d', size_m := size_m v\<rparr>))))"

text \<open>
  \<^verbatim>\<open>for(size_t i = 0; i < min_size; ++i){ (*this)[i] = rhs[i]; }\<close> of the copy assignment,
  from index \<open>i\<close> on, \<open>n\<close> elements.
\<close>

fun assign_loop :: "'a heap \<Rightarrow> raw_memory \<Rightarrow> raw_memory \<Rightarrow> nat \<Rightarrow> nat \<Rightarrow> ('a heap, unit) res" where
  "assign_loop h rhs_data this_data i 0 = Ret h ()"
| "assign_loop h rhs_data this_data i (Suc n) =
     (case copy_assign h (RawMemory_plus rhs_data i) (RawMemory_plus this_data i) of
        Ret h1 _ \<Rightarrow> assign_loop h1 rhs_data this_data (Suc i) n
      | Exc h1 e \<Rightarrow> Exc h1 e
      | UB \<Rightarrow> UB)"

text \<open>\<^verbatim>\<open>Vector& operator=(const Vector& rhs)\<close>.\<close>

definition Vector_copy_assign ::
  "'a heap \<Rightarrow> vector \<Rightarrow> vector operand \<Rightarrow> ('a heap \<times> vector, unit) res" where
  "Vector_copy_assign h v rhs_ref =
     (case rhs_ref of
        Self \<Rightarrow> Ret (h, v) ()
      | Other rhs \<Rightarrow>
          if size_m rhs > capacity_m (data_m v) then
            (case Vector_copy h rhs of
               Exc h1 e \<Rightarrow> Exc (h1, v) e
             | UB \<Rightarrow> UB
             | Ret h1 rhs_copy \<Rightarrow>
                 (case Vector_Swap v (Other rhs_copy) of
                    (v1, Other old) \<Rightarrow> with_vec v1 (Vector_dtor h1 old)
                  | (v1, Self) \<Rightarrow> UB))
          else
            (case assign_loop h (data_m rhs) (data_m v) 0 (min (size_m rhs) (size_m v)) of
               Exc h1 e \<Rightarrow> Exc (h1, v) e
             | UB \<Rightarrow> UB
             | Ret h1 _ \<Rightarrow>
                 if size_m rhs < size_m v then
                   (case destroy_n h1 (ptr_add (GetAddress (data_m v)) (min (size_m rhs) (size_m v)))
                           (size_m v - size_m rhs) of
                      Ret h2 _ \<Rightarrow> Ret (h2, v\<lparr>size_m := size_m rhs\<rparr>) ()
                    | Exc h2 e \<Rightarrow> Exc (h2, v) e
                    | UB \<Rightarrow> UB)
                 else
                   (case uninitialized_copy_n h1
                           (ptr_add (GetAddress (data_m rhs)) (min (size_m rhs) (size_m v)))
                           (size_m rhs - size_m v)
                           (ptr_add (GetAddress (data_m v)) (min (size_m rhs) (size_m v))) of
                      Ret h2 _ \<Rightarrow> Ret (h2, v\<lparr>size_m := size_m rhs\<rparr>) ()
                    | Exc h2 e \<Rightarrow> Exc (h2, v) e
                    | UB \<Rightarrow> UB)))"

text \<open>
  \<^verbatim>\<open>Vector(Vector&& other) noexcept\<close>: the new object and the new \<^verbatim>\<open>other\<close>.
\<close>

definition Vector_move :: "vector \<Rightarrow> vector \<times> vector" where
  "Vector_move other =
     (case RawMemory_move_ctor (data_m other) of
        (d, d') \<Rightarrow> (\<lparr>data_m = d, size_m = size_m other\<rparr>, other\<lparr>data_m := d', size_m := 0\<rparr>))"

text \<open>
  \<^verbatim>\<open>Vector& operator=(Vector&& rhs) noexcept\<close>:
  \<^verbatim>\<open>data_ = std::move(rhs.data_); size_ = std::exchange(rhs.size_, 0);\<close>
  The heap is handed through unchanged: nothing is destroyed and nothing is deallocated.
  When \<^verbatim>\<open>rhs\<close> is \<^verbatim>\<open>*this\<close>, each \<^verbatim>\<open>std::exchange\<close> writes the old value back.
\<close>

definition Vector_move_assign ::
  "'a heap \<Rightarrow> vector \<Rightarrow> vector operand \<Rightarrow> 'a heap \<times> vector \<times> vector operand" where
  "Vector_move_assign h v rhs_ref =
     (case rhs_ref of
        Self \<Rightarrow> (h, v, Self)
      | Other rhs \<Rightarrow>
          (case RawMemory_move_assign (data_m v) (data_m rhs) of
             (d, d') \<Rightarrow> (h, v\<lparr>data_m := d, size_m := size_m rhs\<rparr>,
                            Other (rhs\<lparr>data_m := d', size_m := 0\<rparr>))))"

text \<open>
  \<^verbatim>\<open>iterator Emplace(const_iterator pos, Args&&... args)\<close>.  The position must lie in
  \<^verbatim>\<open>[cbegin(), cend()]\<close>; \<open>nothrow\<close> and \<open>x\<close> describe the constructor \<^verbatim>\<open>T(args...)\<close> as
  in \<open>placement_new\<close>.  In the branch that has room, \<^verbatim>\<open>T value(args...)\<close> is a local
  object: its constructor may throw, and its destructor leaves the heap as it is.
\<close>

definition Emplace ::
  "bool \<Rightarrow> 'a traits \<Rightarrow> 'a heap \<Rightarrow> vector \<Rightarrow> ptr \<Rightarrow> 'a \<Rightarrow> ('a heap \<times> vector, ptr) res" where
  "Emplace nothrow tr h v pos x =
     (if fst pos \<noteq> buffer_m (data_m v) \<or> snd pos > size_m v then UB
      else if pos = cend v then
        (case EmplaceBack nothrow tr h v x of
           Ret (h1, v1) _ \<Rightarrow> Ret (h1, v1) (RawMemory_plus (data_m v1) (snd pos))
         | Exc s e \<Rightarrow> Exc s e
         | UB \<Rightarrow> UB)
      else if size_m v < capacity_m (data_m v) then
        (case (if nothrow then (False, h) else tick h) of (b, h1) \<Rightarrow>
           if b then Exc (h1, v) Ctor_throw
           else
             (case uninitialized_move tr h1
                     (ptr_sub (RawMemory_plus (data_m v) (size_m v)) 1)
                     (RawMemory_plus (data_m v) (size_m v))
                     (RawMemory_plus (data_m v) (size_m v)) of
                Exc h2 e \<Rightarrow> Exc (h2, v) e
              | UB \<Rightarrow> UB
              | Ret h2 _ \<Rightarrow>
                  (case move_backward tr h2
                          (RawMemory_plus (data_m v) (snd pos))
                          (ptr_sub (RawMemory_plus (data_m v) (size_m v)) 1)
                          (RawMemory_plus (data_m v) (size_m v)) of
                     Exc h3 e \<Rightarrow> Exc (h3, v) e
                   | UB \<Rightarrow> UB
                   | Ret h3 _ \<Rightarrow>
                       (case assign_value h3 (RawMemory_plus (data_m v) (snd pos)) x of
                          Exc h4 e \<Rightarrow> Exc (h4, v) e
                        | UB \<Rightarrow> UB
                        | Ret h4 _ \<Rightarrow>
                            Ret (h4, v\<lparr>size_m := size_m v + 1\<rparr>)
                                (RawMemory_plus (data_m v) (snd pos))))))
      else
        (case RawMemory_ctor h (if size_m v = 0 then 1 else 2 * size_m v) of
           Exc h1 e \<Rightarrow> Exc (h1, v) e
         | UB \<Rightarrow> UB
         | Ret h1 new_data \<Rightarrow>
             (case placement_new nothrow h1 (RawMemory_plus new_data (snd pos)) x of
                Exc h2 e \<Rightarrow> with_vec v (rethrow_after (RawMemory_dtor h2 new_data) e)
              | UB \<Rightarrow> UB
              | Ret h2 _ \<Rightarrow>
                  (case relocate_n tr h2 (GetAddress (data_m v)) (snd pos) (GetAddress new_data) of
                     Exc h3 e \<Rightarrow> with_vec v (rethrow_after (RawMemory_dtor h3 new_data) e)
                   | UB \<Rightarrow> UB
                   | Ret h3 _ \<Rightarrow>
                       (case relocate_n tr h3 (ptr_add (GetAddress (data_m v)) (snd pos))
                               (size_m v - snd pos)
                               (ptr_add (ptr_add (GetAddress new_data) (snd pos)) 1) of
                          Exc h4 e \<Rightarrow>
                            (case destroy_n h4 (GetAddress new_data) (snd pos) of
                               Ret h5 _ \<Rightarrow> with_vec v (rethrow_after (RawMemory_dtor h5 new_data) e)
                             | Exc h5 e' \<Rightarrow> Exc (h5, v) e'
                             | UB \<Rightarrow> UB)
                        | UB \<Rightarrow> UB
                        | Ret h4 _ \<Rightarrow>
                            (case adopt h4 v new_data of
                               Ret (h5, v1) _ \<Rightarrow>
                                 Ret (h5, v1\<lparr>size_m := size_m v1 + 1\<rparr>)
                                     (RawMemory_plus (data_m v1) (snd pos))
                             | Exc s e \<Rightarrow> Exc s e
                             | UB \<Rightarrow> UB))))))"

text \<open>
  \<^verbatim>\<open>iterator Erase(const_iterator pos)\<close>; the position must point at an element.
\<close>

definition Erase :: "'a traits \<Rightarrow> 'a heap \<Rightarrow> vector \<Rightarrow> ptr \<Rightarrow> ('a heap \<times> vector, ptr) res" where
  "Erase tr h v pos =
     (if fst pos \<noteq> buffer_m (data_m v) \<or> snd pos \<ge> size_m v then UB
      else
        (case std_move tr h (ptr_add (RawMemory_plus (data_m v) (snd pos)) 1)
                (RawMemory_plus (data_m v) (size_m v))
                (RawMemory_plus (data_m v) (snd pos)) of
           Exc h1 e \<Rightarrow> Exc (h1, v) e
         | UB \<Rightarrow> UB
         | Ret h1 _ \<Rightarrow>
             (case destroy_at h1 (ptr_sub (RawMemory_plus (data_m v) (size_m v)) 1) of
                Ret h2 _ \<Rightarrow> Ret (h2, v\<lparr>size_m := size_m v - 1\<rparr>) (RawMemory_plus (data_m v) (snd pos))
              | Exc h2 e \<Rightarrow> Exc (h2, v) e
              | UB \<Rightarrow> UB)))"

text \<open>\<^verbatim>\<open>iterator Insert(const_iterator pos, const T& value)\<close>: \<^verbatim>\<open>Emplace(pos, value)\<close>.\<close>

definition Insert ::
  "'a traits \<Rightarrow> 'a heap \<Rightarrow> vector \<Rightarrow> ptr \<Rightarrow> 'a \<Rightarrow> ('a heap \<times> vector, ptr) res" where
  "Insert tr h v pos x = Emplace False tr h v pos x"

text \<open>\<^verbatim>\<open>iterator Insert(const_iterator pos, T&& value)\<close>: \<^verbatim>\<open>Emplace(pos, std::move(value))\<close>.\<close>

definition Insert_move ::
  "'a traits \<Rightarrow> 'a heap \<Rightarrow> vector \<Rightarrow> ptr \<Rightarrow> 'a \<Rightarrow> ('a heap \<times> vector, ptr) res" where
  "Insert_move tr h v pos x = Emplace (nothrow_move_constructible tr) tr h v pos x"

section \<open>Specification\<close>

definition in_range :: "ptr \<Rightarrow> nat \<Rightarrow> ptr \<Rightarrow> bool" where
  "in_range d n p = (fst p = fst d \<and> snd d \<le> snd p \<and> snd p < snd d + n)"

definition evolves :: "'a heap \<Rightarrow> 'a heap \<Rightarrow> bool" where
  "evolves h h' = (blocks h' = blocks h \<and> next_addr h' = next_addr h \<and> allocs h' = allocs h \<and>
     sizeof_T h' = sizeof_T h \<and> set (sched h') \<subseteq> set (sched h))"

definition elems :: "'a heap \<Rightarrow> vector \<Rightarrow> 'a option list" where
  "elems h v = map (\<lambda>i. cells h (buffer_m (data_m v), i)) [0..<size_m v]"

text \<open>
  What every heap the program reaches satisfies: the null pointer is no block, the
  addresses not yet handed out hold nothing, \<^verbatim>\<open>sizeof(T)\<close> is not 0, and a block has fewer
  than \<open>2\<^sup>6\<^sup>4\<close> bytes.
\<close>

definition heap_ok :: "'a heap \<Rightarrow> bool" where
  "heap_ok h = (0 < next_addr h \<and> blocks h nullptr = None \<and>
     (\<forall>a. next_addr h \<le> a \<longrightarrow> blocks h a = None \<and> (\<forall>i. cells h (a, i) = None)) \<and>
     0 < sizeof_T h \<and> (\<forall>a n. blocks h a = Some n \<longrightarrow> n * sizeof_T h < 2 ^ 64))"

text \<open>
  A heap of a machine with 64-bit addresses: moreover no object and no block is larger
  than \<^verbatim>\<open>PTRDIFF_MAX\<close> bytes.  On such a heap the request of a growth site, for twice the
  elements of a vector, has a byte count that does not wrap.
\<close>

definition wf_heap :: "'a heap \<Rightarrow> bool" where
  "wf_heap h = (heap_ok h \<and> sizeof_T h < 2 ^ 63 \<and>
     (\<forall>a n. blocks h a = Some n \<longrightarrow> n * sizeof_T h < 2 ^ 63))"

text \<open>
  The number of elements that the block \<^verbatim>\<open>Allocate(n)\<close> returns has room for; it is \<open>n\<close>
  when \<^verbatim>\<open>n * sizeof(T)\<close> does not wrap.
\<close>

definition room :: "'a heap \<Rightarrow> nat \<Rightarrow> nat" where
  "room h n = size_t_mul n (sizeof_T h) div sizeof_T h"

definition valid :: "'a heap \<Rightarrow> vector \<Rightarrow> bool" where
  "valid h v =
     (size_m v \<le> capacity_m (data_m v) \<and>
      (if capacity_m (data_m v) = 0 then buffer_m (data_m v) = nullptr
       else buffer_m (data_m v) \<noteq> nullptr \<and>
            blocks h (buffer_m (data_m v)) = Some (capacity_m (data_m v))) \<and>
      (\<forall>i. (cells h (buffer_m (data_m v), i) \<noteq> None) = (i < size_m v)))"


definition heap0 :: "nat heap" where
  "heap0 = \<lparr>blocks = (\<lambda>_. None), cells = (\<lambda>_. None), next_addr = 1, allocs = 0, sched = [], sizeof_T = 8\<rparr>"

definition copying :: "nat traits" where
  "copying = \<lparr>nothrow_move_constructible = False, copy_constructible = True,
               moved_from = (\<lambda>_. 0), move_failed = (\<lambda>_. 0), value_init = 0\<rparr>"

definition heap12 :: "nat heap" where
  "heap12 = \<lparr>blocks = (\<lambda>_. None)(2 \<mapsto> 2),
             cells = (\<lambda>_. None)((2, 0) \<mapsto> 1, (2, 1) \<mapsto> 2),
             next_addr = 3, allocs = 2, sched = [], sizeof_T = 8\<rparr>"

definition vec12 :: vector where
  "vec12 = \<lparr>data_m = \<lparr>buffer_m = 2, capacity_m = 2\<rparr>, size_m = 2\<rparr>"

text \<open>
  An \<^verbatim>\<open>Append\<close> of the specification is a call of one of the two overloads of
  \<^verbatim>\<open>PushBack\<close>: with an lvalue (the element is copied) or with an rvalue (it is moved).
\<close>

datatype 'a arg = Lvalue 'a | Rvalue 'a

fun arg_value :: "'a arg \<Rightarrow> 'a" where
  "arg_value (Lvalue x) = x"
| "arg_value (Rvalue x) = x"

fun Append :: "'a traits \<Rightarrow> 'a heap \<Rightarrow> vector \<Rightarrow> 'a arg \<Rightarrow> ('a heap \<times> vector, unit) res" where
  "Append tr h v (Lvalue x) = PushBack tr h v x"
| "Append tr h v (Rvalue x) = PushBack_move tr h v x"

text \<open>A sequence of calls; an exception ends it, as it would propagate to the caller.\<close>

fun Append_all ::
  "'a traits \<Rightarrow> 'a heap \<Rightarrow> vector \<Rightarrow> 'a arg list \<Rightarrow> ('a heap \<times> vector, unit) res" where
  "Append_all tr h v [] = Ret (h, v) ()"
| "Append_all tr h v (a # as) =
     (case Append tr h v a of
        Ret (h1, v1) _ \<Rightarrow> Append_all tr h1 v1 as
      | Exc s e \<Rightarrow> Exc s e
      | UB \<Rightarrow> UB)"

definition heap_reserved :: "nat heap" where
  "heap_reserved = \<lparr>blocks = (\<lambda>_. None)(1 \<mapsto> 4), cells = (\<lambda>_. None),
                     next_addr = 2, allocs = 1, sched = [], sizeof_T = 8\<rparr>"

definition vec_reserved :: vector where
  "vec_reserved = \<lparr>data_m = \<lparr>buffer_m = 1, capacity_m = 4\<rparr>, size_m = 0\<rparr>"

text \<open>
  What a call expression hands to its caller: nothing for a function declared \<^verbatim>\<open>void\<close>,
  a reference (the address of the object referred to) for one declared \<^verbatim>\<open>T&\<close>.
\<close>

datatype returned = Void | Reference ptr

text \<open>The call \<^verbatim>\<open>v.PushBack(x)\<close> of \<^verbatim>\<open>void PushBack(const T&)\<close>.\<close>

definition PushBack_call ::
  "'a traits \<Rightarrow> 'a heap \<Rightarrow> vector \<Rightarrow> 'a \<Rightarrow> ('a heap \<times> vector, returned) res" where
  "PushBack_call tr h v x =
     (case PushBack tr h v x of Ret s _ \<Rightarrow> Ret s Void | Exc s e \<Rightarrow> Exc s e | UB \<Rightarrow> UB)"

text \<open>The call \<^verbatim>\<open>v.PushBack(std::move(x))\<close> of \<^verbatim>\<open>void PushBack(T&&)\<close>.\<close>

definition PushBack_move_call ::
  "'a traits \<Rightarrow> 'a heap \<Rightarrow> vector \<Rightarrow> 'a \<Rightarrow> ('a heap \<times> vector, returned) res" where
  "PushBack_move_call tr h v x =
     (case PushBack_move tr h v x of Ret s _ \<Rightarrow> Ret s Void | Exc s e \<Rightarrow> Exc s e | UB \<Rightarrow> UB)"

text \<open>The call \<^verbatim>\<open>v.EmplaceBack(args...)\<close> of \<^verbatim>\<open>T& EmplaceBack(Args&&...)\<close>.\<close>

definition EmplaceBack_call ::
  "bool \<Rightarrow> 'a traits \<Rightarrow> 'a heap \<Rightarrow> vector \<Rightarrow> 'a \<Rightarrow> ('a heap \<times> vector, returned) res" where
  "EmplaceBack_call nothrow tr h v x =
     (case EmplaceBack nothrow tr h v x of
        Ret s p \<Rightarrow> Ret s (Reference p) | Exc s e \<Rightarrow> Exc s e | UB \<Rightarrow> UB)"

definition heap_ab :: "nat heap" where
  "heap_ab = \<lparr>blocks = (\<lambda>_. None)(1 \<mapsto> 1, 2 \<mapsto> 1),
              cells = (\<lambda>_. None)((1, 0) \<mapsto> 7, (2, 0) \<mapsto> 9),
              next_addr = 3, allocs = 2, sched = [], sizeof_T = 8\<rparr>"

definition vec_a :: vector where
  "vec_a = \<lparr>data_m = \<lparr>buffer_m = 1, capacity_m = 1\<rparr>, size_m = 1\<rparr>"

definition vec_b :: vector where
  "vec_b = \<lparr>data_m = \<lparr>buffer_m = 2, capacity_m = 1\<rparr>, size_m = 1\<rparr>"

definition heap_st :: "nat heap" where
  "heap_st = \<lparr>blocks = (\<lambda>_. None)(1 \<mapsto> 1, 2 \<mapsto> 2),
              cells = (\<lambda>_. None)((1, 0) \<mapsto> 7, (2, 0) \<mapsto> 1, (2, 1) \<mapsto> 2),
              next_addr = 3, allocs = 2, sched = [False, False, True], sizeof_T = 8\<rparr>"


definition heap12_throw :: "nat heap" where
  "heap12_throw = heap12\<lparr>sched := [False, False, True]\<rparr>"



text \<open>Nothing that is still to run throws: no entry of the schedule is \<open>True\<close>.\<close>

definition quiet :: "'a heap \<Rightarrow> bool" where
  "quiet h = (True \<notin> set (sched h))"

section \<open>The primitives and the library algorithms\<close>

lemma evolves_refl [simp]: "evolves h h"
  by (simp add: evolves_def)

lemma evolves_trans: "evolves h h1 \<Longrightarrow> evolves h1 h2 \<Longrightarrow> evolves h h2"
  by (auto simp: evolves_def)

lemma size_t_mul_eq: "size_t_mul a b = (a * b) mod 2 ^ 64"
  by (simp add: size_t_mul_def nat_mod_distrib nat_mult_distrib)

lemma room_eq: "0 < sizeof_T h \<Longrightarrow> n * sizeof_T h < 2 ^ 64 \<Longrightarrow> room h n = n"
  by (simp add: room_def size_t_mul_eq)

lemma room_bytes: "room h n * sizeof_T h < 2 ^ 64"
proof -
  have "room h n * sizeof_T h \<le> size_t_mul n (sizeof_T h)"
    by (simp add: room_def)
  also have "\<dots> < 2 ^ 64" by (simp add: size_t_mul_eq)
  finally show ?thesis .
qed

text \<open>
  At a growth site the request does not wrap when the new block has room for one element
  more than the vector holds.
\<close>

lemma room_grow:
  assumes s: "0 < sizeof_T h" and k: "k * sizeof_T h < 2 ^ 64"
    and r: "k < room h (if k = 0 then 1 else 2 * k)"
  shows "(if k = 0 then 1 else 2 * k) * sizeof_T h < 2 ^ 64"
proof (rule ccontr)
  assume "\<not> ?thesis"
  then have big: "2 ^ 64 \<le> (if k = 0 then 1 else 2 * k) * sizeof_T h" by simp
  show False
  proof (cases "k = 0")
    case True
    with big have "(2::nat) ^ 64 \<le> sizeof_T h" by simp
    moreover have "sizeof_T h mod 2 ^ 64 < (2::nat) ^ 64" by simp
    ultimately have "sizeof_T h mod 2 ^ 64 < sizeof_T h" by linarith
    then have "room h 1 = 0" by (simp add: room_def size_t_mul_eq)
    with r True show False by simp
  next
    case False
    define x where "x = 2 * k * sizeof_T h"
    from big False have b: "2 ^ 64 \<le> x" by (simp add: x_def)
    from k have u: "x < 2 * 2 ^ 64" by (simp add: x_def)
    have "x mod 2 ^ 64 = (x - 2 ^ 64) mod 2 ^ 64" using b by (rule le_mod_geq)
    also have "\<dots> = x - 2 ^ 64" using u by simp
    finally have m: "x mod 2 ^ 64 = x - 2 ^ 64" .
    have "x - 2 ^ 64 < k * sizeof_T h" using k b by (simp add: x_def)
    then have "(x mod 2 ^ 64) div sizeof_T h < k"
      unfolding m by (rule less_mult_imp_div_less)
    then have "room h (2 * k) < k" by (simp add: room_def size_t_mul_eq x_def)
    with r False show False by simp
  qed
qed

lemma tick_elim:
  "tick h = (b, h1) \<Longrightarrow> evolves h h1 \<and> cells h1 = cells h \<and> (b \<longrightarrow> True \<in> set (sched h))"
  by (auto simp: tick_def evolves_def split: list.splits)

lemma placement_new_Ret:
  "placement_new nt h p x = Ret h1 u \<Longrightarrow>
     in_block h p \<and> cells h p = None \<and> cells h1 = (cells h)(p \<mapsto> x) \<and> evolves h h1"
  by (auto simp: placement_new_def evolves_def split: if_splits prod.splits dest!: tick_elim)

lemma placement_new_Exc:
  "placement_new nt h p x = Exc h1 e \<Longrightarrow>
     e = Ctor_throw \<and> \<not> nt \<and> True \<in> set (sched h) \<and> cells h1 = cells h \<and> evolves h h1"
  by (auto simp: placement_new_def split: if_splits prod.splits dest!: tick_elim)

lemma destroy_at_Ret:
  "destroy_at h p = Ret h1 u \<Longrightarrow> cells h p \<noteq> None \<and> cells h1 = (cells h)(p := None) \<and> evolves h h1"
  by (auto simp: destroy_at_def evolves_def split: if_splits)

lemma destroy_at_Exc [simp]: "destroy_at h p \<noteq> Exc h1 e"
  by (auto simp: destroy_at_def)

lemma destroy_n_Exc [simp]: "destroy_n h p n \<noteq> Exc h1 e"
  by (induction n arbitrary: h p) (auto split: res.splits)

lemma destroy_n_Ret:
  "destroy_n h d n = Ret h1 u \<Longrightarrow>
     cells h1 = (\<lambda>p. if in_range d n p then None else cells h p) \<and> evolves h h1 \<and>
     (\<forall>p. in_range d n p \<longrightarrow> cells h p \<noteq> None)"
proof (induction n arbitrary: h d)
  case 0
  then show ?case by (auto simp: in_range_def fun_eq_iff)
next
  case (Suc n)
  from Suc.prems obtain h2 where
    a: "destroy_at h d = Ret h2 ()" and b: "destroy_n h2 (ptr_add d 1) n = Ret h1 u"
    by (auto split: res.splits)
  from destroy_at_Ret[OF a] have c: "cells h d \<noteq> None" "cells h2 = (cells h)(d := None)" "evolves h h2"
    by auto
  from Suc.IH[OF b] c show ?case
    apply (cases d)
    apply (auto simp: in_range_def ptr_add_def fun_eq_iff elim: evolves_trans)
    apply (metis Suc_leI le_eq_less_or_eq)
    done
qed


lemma copy_construct_Ret:
  "copy_construct h s d = Ret h1 u \<Longrightarrow>
     \<exists>x. cells h s = Some x \<and> in_block h d \<and> cells h d = None \<and>
         cells h1 = (cells h)(d \<mapsto> x) \<and> evolves h h1"
  by (auto simp: copy_construct_def split: option.splits dest!: placement_new_Ret)

lemma copy_construct_Exc:
  "copy_construct h s d = Exc h1 e \<Longrightarrow>
     e = Ctor_throw \<and> True \<in> set (sched h) \<and> cells h1 = cells h \<and> evolves h h1"
  by (auto simp: copy_construct_def split: option.splits dest!: placement_new_Exc)

lemma rethrow_after_Exc:
  "rethrow_after c e = Exc s e' \<Longrightarrow> (\<exists>u. c = Ret s u \<and> e' = e) \<or> c = Exc s e'"
  by (auto simp: rethrow_after_def split: res.splits)

lemma rethrow_after_Ret [simp]: "rethrow_after c e \<noteq> Ret s u"
  by (auto simp: rethrow_after_def split: res.splits)

lemma uninitialized_copy_loop_Exc:
  "uninitialized_copy_loop h first count d built = Exc h1 e \<Longrightarrow>
     e = Ctor_throw \<and> True \<in> set (sched h) \<and>
     cells h1 = (\<lambda>p. if in_range d built p then None else cells h p) \<and> evolves h h1"
proof (induction count arbitrary: h first built)
  case 0
  then show ?case by simp
next
  case (Suc count)
  show ?case
  proof (cases "copy_construct h first (ptr_add d built)")
    case (Ret h2 u)
    with Suc.prems have b: "uninitialized_copy_loop h2 (ptr_add first 1) count d (Suc built) = Exc h1 e"
      by simp
    from copy_construct_Ret[OF Ret] obtain x where
      c: "cells h (ptr_add d built) = None" "cells h2 = (cells h)(ptr_add d built \<mapsto> x)" "evolves h h2"
      by auto
    from Suc.IH[OF b] c show ?thesis
      by (cases d) (auto simp: in_range_def ptr_add_def fun_eq_iff evolves_def)
  next
    case (Exc h2 e2)
    with Suc.prems have b: "rethrow_after (destroy_n h2 d built) e2 = (Exc h1 e :: ('a heap, unit) res)"
      by simp
    then obtain u where d: "destroy_n h2 d built = Ret h1 u" "e = e2"
      by (auto dest!: rethrow_after_Exc)
    from copy_construct_Exc[OF Exc] destroy_n_Ret[OF d(1)] d(2) show ?thesis
      by (auto simp: evolves_def)
  next
    case UB
    with Suc.prems show ?thesis by simp
  qed
qed

lemma uninitialized_copy_loop_Ret:
  "uninitialized_copy_loop h first count d built = Ret h1 u \<Longrightarrow> fst first \<noteq> fst d \<Longrightarrow>
     cells h1 = (\<lambda>p. if in_range (ptr_add d built) count p
                      then cells h (fst first, snd first + (snd p - (snd d + built)))
                      else cells h p) \<and>
     evolves h h1 \<and>
     (\<forall>p. in_range (ptr_add d built) count p \<longrightarrow> cells h p = None \<and> in_block h p) \<and>
     (\<forall>k<count. cells h (fst first, snd first + k) \<noteq> None)"
proof (induction count arbitrary: h first built)
  case 0
  then show ?case by (auto simp: in_range_def fun_eq_iff)
next
  case (Suc count)
  from Suc.prems(1) obtain h2 where
    a: "copy_construct h first (ptr_add d built) = Ret h2 ()" and
    b: "uninitialized_copy_loop h2 (ptr_add first 1) count d (Suc built) = Ret h1 u"
    by (auto split: res.splits)
  from copy_construct_Ret[OF a] obtain x where
    c: "cells h first = Some x" "in_block h (ptr_add d built)" "cells h (ptr_add d built) = None"
       "cells h2 = (cells h)(ptr_add d built \<mapsto> x)" "evolves h h2"
    by auto
  have ne: "fst (ptr_add first 1) \<noteq> fst d" using Suc.prems(2) by (simp add: ptr_add_def)
  note ih = Suc.IH[OF b ne]
  have blk: "blocks h2 = blocks h" using c(5) by (simp add: evolves_def)
  have 1: "cells h1 = (\<lambda>p. if in_range (ptr_add d built) (Suc count) p
                      then cells h (fst first, snd first + (snd p - (snd d + built)))
                      else cells h p)"
  proof
    fix p
    show "cells h1 p = (if in_range (ptr_add d built) (Suc count) p
                      then cells h (fst first, snd first + (snd p - (snd d + built)))
                      else cells h p)"
    proof (cases "p = ptr_add d built")
      case True
      then show ?thesis using ih c Suc.prems(2)
        by (cases first) (auto simp: in_range_def ptr_add_def)
    next
      case False
      show ?thesis
      proof (cases "in_range (ptr_add d built) (Suc count) p")
        case True
        with False have r: "in_range (ptr_add d (Suc built)) count p"
          by (cases p; cases d) (auto simp: in_range_def ptr_add_def)
        then have ge: "snd d + Suc built \<le> snd p"
          by (simp add: in_range_def ptr_add_def)
        have ix: "snd (ptr_add first 1) + (snd p - (snd d + Suc built)) =
                  snd first + (snd p - (snd d + built))"
          using ge by (simp add: ptr_add_def)
        have fst1: "fst (ptr_add first 1) = fst first"
          by (simp add: ptr_add_def)
        have "cells h1 p = cells h2 (fst (ptr_add first 1),
                 snd (ptr_add first 1) + (snd p - (snd d + Suc built)))"
          using ih r by simp
        then have "cells h1 p = cells h2 (fst first, snd first + (snd p - (snd d + built)))"
          by (simp only: fst1 ix)
        also have "\<dots> = cells h (fst first, snd first + (snd p - (snd d + built)))"
          using c(4) Suc.prems(2) by (cases d) (simp add: ptr_add_def)
        finally show ?thesis using True by simp
      next
        case nr: False
        then have "\<not> in_range (ptr_add d (Suc built)) count p"
          by (cases p; cases d) (auto simp: in_range_def ptr_add_def)
        then have "cells h1 p = cells h2 p" using ih by simp
        then show ?thesis using nr c(4) False by simp
      qed
    qed
  qed
  have 2: "evolves h h1" using ih c(5) by (auto elim: evolves_trans)
  have 3: "\<forall>p. in_range (ptr_add d built) (Suc count) p \<longrightarrow> cells h p = None \<and> in_block h p"
  proof (intro allI impI)
    fix p assume r: "in_range (ptr_add d built) (Suc count) p"
    show "cells h p = None \<and> in_block h p"
    proof (cases "p = ptr_add d built")
      case True
      then show ?thesis using c by simp
    next
      case False
      with r have "in_range (ptr_add d (Suc built)) count p"
        by (cases p; cases d) (auto simp: in_range_def ptr_add_def)
      with ih have "cells h2 p = None \<and> in_block h2 p" by blast
      then show ?thesis using c(4) False blk by (auto simp: in_block_def split: if_splits)
    qed
  qed
  have 4: "\<forall>k<Suc count. cells h (fst first, snd first + k) \<noteq> None"
  proof (intro allI impI)
    fix k assume "k < Suc count"
    show "cells h (fst first, snd first + k) \<noteq> None"
    proof (cases k)
      case 0
      then show ?thesis using c(1) by simp
    next
      case (Suc j)
      with \<open>k < Suc count\<close> ih have "cells h2 (fst first, snd first + 1 + j) \<noteq> None"
        by (auto simp: ptr_add_def)
      then show ?thesis using c(4) Suc Suc.prems(2) by (cases d) (auto simp: ptr_add_def split: if_splits)
    qed
  qed
  from 1 2 3 4 show ?case by blast
qed


lemma move_construct_Ret:
  "move_construct tr h s d = Ret h1 u \<Longrightarrow>
     \<exists>x. cells h s = Some x \<and> in_block h d \<and> cells h d = None \<and>
         cells h1 = (cells h)(d \<mapsto> x, s \<mapsto> moved_from tr x) \<and> evolves h h1"
  by (auto simp: move_construct_def evolves_def split: option.splits res.splits
           dest!: placement_new_Ret)

lemma move_construct_Exc:
  "move_construct tr h s d = Exc h1 e \<Longrightarrow>
     e = Ctor_throw \<and> \<not> nothrow_move_constructible tr \<and> True \<in> set (sched h) \<and>
     (\<exists>x. cells h s = Some x \<and> cells h1 = (cells h)(s \<mapsto> move_failed tr x)) \<and> evolves h h1"
  by (auto simp: move_construct_def evolves_def split: option.splits res.splits
           dest!: placement_new_Exc)


lemma uninitialized_move_loop_Ret:
  "uninitialized_move_loop tr h first count d built = Ret h1 u \<Longrightarrow> fst first \<noteq> fst d \<Longrightarrow>
     cells h1 = (\<lambda>p. if in_range (ptr_add d built) count p
                      then cells h (fst first, snd first + (snd p - (snd d + built)))
                      else if in_range first count p then map_option (moved_from tr) (cells h p)
                      else cells h p) \<and>
     evolves h h1 \<and>
     (\<forall>p. in_range (ptr_add d built) count p \<longrightarrow> cells h p = None \<and> in_block h p) \<and>
     (\<forall>p. in_range first count p \<longrightarrow> cells h p \<noteq> None)"
proof (induction count arbitrary: h first built)
  case 0
  then show ?case by (auto simp: in_range_def fun_eq_iff)
next
  case (Suc count)
  from Suc.prems(1) obtain h2 where
    a: "move_construct tr h first (ptr_add d built) = Ret h2 ()" and
    b: "uninitialized_move_loop tr h2 (ptr_add first 1) count d (Suc built) = Ret h1 u"
    by (auto split: res.splits)
  from move_construct_Ret[OF a] obtain x where
    c: "cells h first = Some x" "in_block h (ptr_add d built)" "cells h (ptr_add d built) = None"
       "cells h2 = (cells h)(ptr_add d built \<mapsto> x, first \<mapsto> moved_from tr x)" "evolves h h2"
    by auto
  have ne: "fst (ptr_add first 1) \<noteq> fst d" using Suc.prems(2) by (simp add: ptr_add_def)
  have ne2: "first \<noteq> ptr_add d built" using Suc.prems(2) by (auto simp: ptr_add_def)
  note ih = Suc.IH[OF b ne]
  have blk: "blocks h2 = blocks h" using c(5) by (simp add: evolves_def)
  have 1: "cells h1 = (\<lambda>p. if in_range (ptr_add d built) (Suc count) p
                      then cells h (fst first, snd first + (snd p - (snd d + built)))
                      else if in_range first (Suc count) p then map_option (moved_from tr) (cells h p)
                      else cells h p)"
  proof
    fix p
    show "cells h1 p = (if in_range (ptr_add d built) (Suc count) p
                      then cells h (fst first, snd first + (snd p - (snd d + built)))
                      else if in_range first (Suc count) p then map_option (moved_from tr) (cells h p)
                      else cells h p)"
    proof (cases "p = ptr_add d built")
      case True
      then have "\<not> in_range (ptr_add d (Suc built)) count p" "\<not> in_range (ptr_add first 1) count p"
        using Suc.prems(2) by (auto simp: in_range_def ptr_add_def)
      then have "cells h1 p = cells h2 p" using ih by simp
      then show ?thesis using True c ne2
        by (cases first) (auto simp: in_range_def ptr_add_def)
    next
      case False
      show ?thesis
      proof (cases "in_range (ptr_add d built) (Suc count) p")
        case True
        with False have r: "in_range (ptr_add d (Suc built)) count p"
          by (cases p; cases d) (auto simp: in_range_def ptr_add_def)
        then have ge: "snd d + Suc built \<le> snd p"
          by (simp add: in_range_def ptr_add_def)
        have ix: "snd (ptr_add first 1) + (snd p - (snd d + Suc built)) =
                  snd first + (snd p - (snd d + built))"
          using ge by (simp add: ptr_add_def)
        have fst1: "fst (ptr_add first 1) = fst first"
          by (simp add: ptr_add_def)
        have "cells h1 p = cells h2 (fst (ptr_add first 1),
                 snd (ptr_add first 1) + (snd p - (snd d + Suc built)))"
          using ih r by simp
        then have "cells h1 p = cells h2 (fst first, snd first + (snd p - (snd d + built)))"
          by (simp only: fst1 ix)
        also have "\<dots> = cells h (fst first, snd first + (snd p - (snd d + built)))"
          using c(4) Suc.prems(2) ge r
          by (cases d; cases first) (auto simp: ptr_add_def in_range_def)
        finally show ?thesis using True by simp
      next
        case nr: False
        then have nr': "\<not> in_range (ptr_add d (Suc built)) count p"
          by (cases p; cases d) (auto simp: in_range_def ptr_add_def)
        show ?thesis
        proof (cases "p = first")
          case True
          then have "\<not> in_range (ptr_add first 1) count p"
            by (auto simp: in_range_def ptr_add_def)
          then have "cells h1 p = cells h2 p" using ih nr' by simp
          then show ?thesis using True nr c by (auto simp: in_range_def)
        next
          case pf: False
          have eq: "in_range (ptr_add first 1) count p = in_range first (Suc count) p"
            using pf by (cases p; cases first) (auto simp: in_range_def ptr_add_def)
          have "cells h2 p = cells h p" using c(4) pf False by simp
          then show ?thesis using ih nr nr' eq by simp
        qed
      qed
    qed
  qed
  have 2: "evolves h h1" using ih c(5) by (auto elim: evolves_trans)
  have 3: "\<forall>p. in_range (ptr_add d built) (Suc count) p \<longrightarrow> cells h p = None \<and> in_block h p"
  proof (intro allI impI)
    fix p assume r: "in_range (ptr_add d built) (Suc count) p"
    show "cells h p = None \<and> in_block h p"
    proof (cases "p = ptr_add d built")
      case True
      then show ?thesis using c by simp
    next
      case False
      with r have "in_range (ptr_add d (Suc built)) count p"
        by (cases p; cases d) (auto simp: in_range_def ptr_add_def)
      with ih have "cells h2 p = None \<and> in_block h2 p" by blast
      then show ?thesis using c(4) False blk by (auto simp: in_block_def split: if_splits)
    qed
  qed
  have 4: "\<forall>p. in_range first (Suc count) p \<longrightarrow> cells h p \<noteq> None"
  proof (intro allI impI)
    fix p assume r: "in_range first (Suc count) p"
    show "cells h p \<noteq> None"
    proof (cases "p = first")
      case True
      then show ?thesis using c(1) by simp
    next
      case False
      with r have "in_range (ptr_add first 1) count p"
        by (cases p; cases first) (auto simp: in_range_def ptr_add_def)
      with ih have "cells h2 p \<noteq> None" by blast
      moreover have "p \<noteq> ptr_add d built"
        using r Suc.prems(2) by (auto simp: in_range_def ptr_add_def)
      ultimately show ?thesis using c(4) False by (auto split: if_splits)
    qed
  qed
  from 1 2 3 4 show ?case by blast
qed

lemma ptr_add_0 [simp]: "ptr_add d 0 = d"
  by (cases d) (simp add: ptr_add_def)

lemma in_range_disjoint: "fst first \<noteq> fst d \<Longrightarrow> in_range first n p \<Longrightarrow> \<not> in_range d m p"
  by (auto simp: in_range_def)

lemma relocate_n_Ret:
  assumes "relocate_n tr h first count d = Ret h1 u" and "fst first \<noteq> fst d"
  shows "(\<forall>p. \<not> in_range first count p \<longrightarrow>
            cells h1 p = (if in_range d count p
                          then cells h (fst first, snd first + (snd p - snd d)) else cells h p)) \<and>
         (\<forall>p. in_range first count p \<longrightarrow> cells h1 p \<noteq> None \<and> cells h p \<noteq> None) \<and>
         (\<forall>p. in_range d count p \<longrightarrow> cells h p = None \<and> in_block h p) \<and>
         evolves h h1"
proof (cases "nothrow_move_constructible tr \<or> \<not> copy_constructible tr")
  case True
  with assms(1) have "uninitialized_move_loop tr h first count d 0 = Ret h1 u"
    by (simp add: relocate_n_def uninitialized_move_n_def)
  from uninitialized_move_loop_Ret[OF this assms(2), unfolded ptr_add_0 add_0_right] have
    A: "cells h1 = (\<lambda>p. if in_range d count p
                      then cells h (fst first, snd first + (snd p - snd d))
                      else if in_range first count p then map_option (moved_from tr) (cells h p)
                      else cells h p)" and
    B: "evolves h h1" and
    C: "\<forall>p. in_range d count p \<longrightarrow> cells h p = None \<and> in_block h p" and
    D: "\<forall>p. in_range first count p \<longrightarrow> cells h p \<noteq> None"
    by simp_all
  have 1: "\<forall>p. \<not> in_range first count p \<longrightarrow>
            cells h1 p = (if in_range d count p
                          then cells h (fst first, snd first + (snd p - snd d)) else cells h p)"
    by (simp add: A)
  have 2: "\<forall>p. in_range first count p \<longrightarrow> cells h1 p \<noteq> None \<and> cells h p \<noteq> None"
  proof (intro allI impI)
    fix p assume r: "in_range first count p"
    then have "\<not> in_range d count p" using assms(2) by (rule in_range_disjoint[rotated])
    moreover from r D have "cells h p \<noteq> None" by blast
    ultimately show "cells h1 p \<noteq> None \<and> cells h p \<noteq> None"
      using r by (simp add: A)
  qed
  from 1 2 B C show ?thesis by blast
next
  case False
  with assms(1) have "uninitialized_copy_loop h first count d 0 = Ret h1 u"
    by (simp add: relocate_n_def uninitialized_copy_n_def)
  from uninitialized_copy_loop_Ret[OF this assms(2), unfolded ptr_add_0 add_0_right] have
    A: "cells h1 = (\<lambda>p. if in_range d count p
                      then cells h (fst first, snd first + (snd p - snd d))
                      else cells h p)" and
    B: "evolves h h1" and
    C: "\<forall>p. in_range d count p \<longrightarrow> cells h p = None \<and> in_block h p" and
    D: "\<forall>k<count. cells h (fst first, snd first + k) \<noteq> None"
    by simp_all
  have 1: "\<forall>p. \<not> in_range first count p \<longrightarrow>
            cells h1 p = (if in_range d count p
                          then cells h (fst first, snd first + (snd p - snd d)) else cells h p)"
    by (simp add: A)
  have 2: "\<forall>p. in_range first count p \<longrightarrow> cells h1 p \<noteq> None \<and> cells h p \<noteq> None"
  proof (intro allI impI)
    fix p assume r: "in_range first count p"
    then have nd: "\<not> in_range d count p" using assms(2) by (rule in_range_disjoint[rotated])
    from r have "snd p - snd first < count" and "p = (fst first, snd first + (snd p - snd first))"
      by (cases p, auto simp: in_range_def)+
    with D have "cells h p \<noteq> None" by metis
    with nd show "cells h1 p \<noteq> None \<and> cells h p \<noteq> None"
      by (simp add: A)
  qed
  from 1 2 B C show ?thesis by blast
qed


lemma RawMemory_ctor_Ret:
  "RawMemory_ctor h n = Ret h1 m \<Longrightarrow>
     capacity_m m = n \<and> cells h1 = cells h \<and> set (sched h1) \<subseteq> set (sched h) \<and>
     sizeof_T h1 = sizeof_T h \<and>
     (if n = 0 then buffer_m m = nullptr \<and> evolves h h1
      else buffer_m m = next_addr h \<and> blocks h1 = (blocks h)(next_addr h \<mapsto> room h n) \<and>
           next_addr h1 = Suc (next_addr h) \<and> allocs h1 = Suc (allocs h))"
  by (auto simp: RawMemory_ctor_def Allocate_def operator_new_def evolves_def room_def
           split: res.splits if_splits prod.splits dest!: tick_elim)

lemma RawMemory_ctor_Exc:
  "RawMemory_ctor h n = Exc h1 e \<Longrightarrow>
     e = Bad_alloc \<and> True \<in> set (sched h) \<and> cells h1 = cells h \<and> evolves h h1"
  by (auto simp: RawMemory_ctor_def Allocate_def operator_new_def
           split: res.splits if_splits prod.splits dest!: tick_elim)

lemma RawMemory_dtor_Ret:
  "RawMemory_dtor h m = Ret h1 u \<Longrightarrow>
     cells h1 = cells h \<and> next_addr h1 = next_addr h \<and> allocs h1 = allocs h \<and>
     sched h1 = sched h \<and> sizeof_T h1 = sizeof_T h \<and>
     (if buffer_m m = nullptr then blocks h1 = blocks h
      else blocks h (buffer_m m) \<noteq> None \<and> blocks h1 = (blocks h)(buffer_m m := None))"
  by (auto simp: RawMemory_dtor_def Deallocate_def operator_delete_def
           split: if_splits option.splits)

lemma RawMemory_dtor_Exc [simp]: "RawMemory_dtor h m \<noteq> Exc h1 e"
  by (auto simp: RawMemory_dtor_def Deallocate_def operator_delete_def
           split: if_splits option.splits)

lemma with_vec_Ret: "with_vec v r = Ret s u \<Longrightarrow> \<exists>h. r = Ret h u \<and> s = (h, v)"
  by (auto simp: with_vec_def split: res.splits)

lemma with_vec_Exc: "with_vec v r = Exc s e \<Longrightarrow> \<exists>h. r = Exc h e \<and> s = (h, v)"
  by (auto simp: with_vec_def split: res.splits)

lemma adopt_Exc [simp]: "adopt h v nd \<noteq> Exc s e"
  by (auto simp: adopt_def RawMemory_Swap_def split: res.splits dest!: with_vec_Exc)

lemma adopt_Ret:
  assumes "adopt h v nd = Ret (h1, v1) u"
  shows "data_m v1 = nd \<and> size_m v1 = size_m v \<and>
     cells h1 = (\<lambda>p. if in_range (GetAddress (data_m v)) (size_m v) p then None else cells h p) \<and>
     (\<forall>p. in_range (GetAddress (data_m v)) (size_m v) p \<longrightarrow> cells h p \<noteq> None) \<and>
     next_addr h1 = next_addr h \<and> allocs h1 = allocs h \<and> set (sched h1) \<subseteq> set (sched h) \<and>
     sizeof_T h1 = sizeof_T h \<and>
     (if buffer_m (data_m v) = nullptr then blocks h1 = blocks h
      else blocks h (buffer_m (data_m v)) \<noteq> None \<and>
           blocks h1 = (blocks h)(buffer_m (data_m v) := None))"
proof -
  from assms obtain h2 where
    a: "destroy_n h (GetAddress (data_m v)) (size_m v) = Ret h2 ()" and
    b: "with_vec (v\<lparr>data_m := fst (RawMemory_Swap (data_m v) nd)\<rparr>)
          (RawMemory_dtor h2 (snd (RawMemory_Swap (data_m v) nd))) = Ret (h1, v1) u"
    by (auto simp: adopt_def split: res.splits prod.splits)
  from with_vec_Ret[OF b] have
    c: "RawMemory_dtor h2 (snd (RawMemory_Swap (data_m v) nd)) = Ret h1 u" and
    d: "v1 = v\<lparr>data_m := fst (RawMemory_Swap (data_m v) nd)\<rparr>"
    by auto
  have e: "fst (RawMemory_Swap (data_m v) nd) = nd"
          "buffer_m (snd (RawMemory_Swap (data_m v) nd)) = buffer_m (data_m v)"
    by (cases nd; cases "data_m v"; simp add: RawMemory_Swap_def)+
  note f = destroy_n_Ret[OF a]
  note g = RawMemory_dtor_Ret[OF c]
  have ev: "blocks h2 = blocks h" "next_addr h2 = next_addr h" "allocs h2 = allocs h"
    "set (sched h2) \<subseteq> set (sched h)" "sizeof_T h2 = sizeof_T h"
    using f by (simp_all add: evolves_def)
  show ?thesis
    using d e f g ev by (simp split: if_splits)
qed

lemma relocate_n_zero [simp]: "relocate_n tr h first 0 d = Ret h ()"
  by (simp add: relocate_n_def uninitialized_move_n_def uninitialized_copy_n_def)

lemma relocate_n_Ret_pt:
  assumes "relocate_n tr h (b, s) count (a, t) = Ret h1 u" and "b \<noteq> a"
  shows "\<And>c i. \<not> (c = b \<and> s \<le> i \<and> i < s + count) \<Longrightarrow>
           cells h1 (c, i) = (if c = a \<and> t \<le> i \<and> i < t + count
                              then cells h (b, s + (i - t)) else cells h (c, i))"
    and "\<And>i. s \<le> i \<Longrightarrow> i < s + count \<Longrightarrow> cells h1 (b, i) \<noteq> None \<and> cells h (b, i) \<noteq> None"
    and "\<And>i. t \<le> i \<Longrightarrow> i < t + count \<Longrightarrow> cells h (a, i) = None \<and> in_block h (a, i)"
    and "evolves h h1"
proof -
  have ne: "fst (b, s) \<noteq> fst (a, t)" using assms(2) by simp
  note r = relocate_n_Ret[OF assms(1) ne]
  from r have 1: "\<forall>p. \<not> in_range (b, s) count p \<longrightarrow>
            cells h1 p = (if in_range (a, t) count p
                          then cells h (fst (b, s), snd (b, s) + (snd p - snd (a, t))) else cells h p)"
    by blast
  from r have 2: "\<forall>p. in_range (b, s) count p \<longrightarrow> cells h1 p \<noteq> None \<and> cells h p \<noteq> None"
    by blast
  from r have 3: "\<forall>p. in_range (a, t) count p \<longrightarrow> cells h p = None \<and> in_block h p"
    by blast
  show "\<And>c i. \<not> (c = b \<and> s \<le> i \<and> i < s + count) \<Longrightarrow>
           cells h1 (c, i) = (if c = a \<and> t \<le> i \<and> i < t + count
                              then cells h (b, s + (i - t)) else cells h (c, i))"
    using 1[rule_format, of "(c, i)" for c i] by (simp add: in_range_def)
  show "\<And>i. s \<le> i \<Longrightarrow> i < s + count \<Longrightarrow> cells h1 (b, i) \<noteq> None \<and> cells h (b, i) \<noteq> None"
    using 2[rule_format, of "(b, i)" for i] by (simp add: in_range_def)
  show "\<And>i. t \<le> i \<Longrightarrow> i < t + count \<Longrightarrow> cells h (a, i) = None \<and> in_block h (a, i)"
    using 3[rule_format, of "(a, i)" for i] by (simp add: in_range_def)
  show "evolves h h1" using r by blast
qed


lemma adopt_Ret_pt:
  assumes "adopt h v nd = Ret (h1, v1) u"
  shows "data_m v1 = nd" and "size_m v1 = size_m v"
    and "\<And>c i. cells h1 (c, i) =
           (if c = buffer_m (data_m v) \<and> i < size_m v then None else cells h (c, i))"
    and "next_addr h1 = next_addr h" and "allocs h1 = allocs h"
    and "set (sched h1) \<subseteq> set (sched h)"
    and "blocks h1 = (if buffer_m (data_m v) = nullptr then blocks h
                      else (blocks h)(buffer_m (data_m v) := None))"
    and "sizeof_T h1 = sizeof_T h"
  using adopt_Ret[OF assms] by (simp_all add: in_range_def GetAddress_def)

lemma valid_fresh:
  assumes "heap_ok h" and "valid h v"
  shows "buffer_m (data_m v) < next_addr h"
proof (cases "capacity_m (data_m v) = 0")
  case True
  with assms show ?thesis by (simp add: valid_def heap_ok_def nullptr_def)
next
  case False
  with assms(2) have "blocks h (buffer_m (data_m v)) \<noteq> None" by (simp add: valid_def)
  moreover have "next_addr h \<le> buffer_m (data_m v) \<Longrightarrow> blocks h (buffer_m (data_m v)) = None"
    using assms(1) by (simp add: heap_ok_def)
  ultimately show ?thesis by (meson not_le)
qed

lemma heap_ok_sizeof: "heap_ok h \<Longrightarrow> 0 < sizeof_T h"
  by (simp add: heap_ok_def)

lemma valid_bytes:
  assumes "heap_ok h" and "valid h v"
  shows "size_m v * sizeof_T h < 2 ^ 64"
proof (cases "capacity_m (data_m v) = 0")
  case True
  with assms(2) show ?thesis by (simp add: valid_def)
next
  case False
  with assms(2) have "blocks h (buffer_m (data_m v)) = Some (capacity_m (data_m v))"
    by (simp add: valid_def)
  with assms(1) have a: "capacity_m (data_m v) * sizeof_T h < 2 ^ 64"
    unfolding heap_ok_def by blast
  have "size_m v \<le> capacity_m (data_m v)"
    using assms(2) by (simp add: valid_def)
  then have "size_m v * sizeof_T h \<le> capacity_m (data_m v) * sizeof_T h"
    by (rule mult_le_mono1)
  from this a show ?thesis by (rule le_less_trans)
qed

text \<open>
  On a heap whose blocks are smaller than \<open>2\<^sup>6\<^sup>3\<close> bytes the request of a growth site does
  not wrap.
\<close>

lemma wf_heap_fit:
  assumes "wf_heap h" and "valid h v"
  shows "(if size_m v = 0 then 1 else 2 * size_m v) * sizeof_T h < 2 ^ 64"
proof (cases "size_m v = 0")
  case True
  from assms(1) have "sizeof_T h < 2 ^ 63" by (simp add: wf_heap_def)
  with True show ?thesis by simp
next
  case False
  with assms(2) have "capacity_m (data_m v) \<noteq> 0" by (auto simp: valid_def)
  with assms(2) have "blocks h (buffer_m (data_m v)) = Some (capacity_m (data_m v))"
    by (simp add: valid_def)
  with assms(1) have a: "capacity_m (data_m v) * sizeof_T h < 2 ^ 63"
    unfolding wf_heap_def by blast
  have "size_m v \<le> capacity_m (data_m v)"
    using assms(2) by (simp add: valid_def)
  then have "size_m v * sizeof_T h \<le> capacity_m (data_m v) * sizeof_T h"
    by (rule mult_le_mono1)
  from this a have "size_m v * sizeof_T h < 2 ^ 63" by (rule le_less_trans)
  then have "2 * (size_m v * sizeof_T h) < 2 * 2 ^ 63" by (rule mult_less_mono2) simp
  with False show ?thesis by (simp add: mult.assoc)
qed

text \<open>The heap after the reallocating branch of a growth site.\<close>

lemma realloc_core:
  assumes wf: "heap_ok h" and v: "valid h v" and pos: "pos \<le> size_m v"
    and n: "size_m v < n"
    and c1: "RawMemory_ctor h n = Ret h1 nd"
    and c2: "placement_new nt h1 (RawMemory_plus nd pos) x = Ret h2 u2"
    and c3: "relocate_n tr h2 (GetAddress (data_m v)) pos (GetAddress nd) = Ret h3 u3"
    and c4: "relocate_n tr h3 (ptr_add (GetAddress (data_m v)) pos) (size_m v - pos)
               (ptr_add (ptr_add (GetAddress nd) pos) 1) = Ret h4 u4"
    and c5: "adopt h4 v nd = Ret (h5, v1) u5"
  shows "data_m v1 = \<lparr>buffer_m = next_addr h, capacity_m = n\<rparr>"
    and "size_m v1 = size_m v"
    and "\<And>i. cells h5 (next_addr h, i) =
           (if i < pos then cells h (buffer_m (data_m v), i)
            else if i = pos then Some x
            else if i \<le> size_m v then cells h (buffer_m (data_m v), i - 1)
            else None)"
    and "\<And>c i. c \<noteq> next_addr h \<Longrightarrow>
           cells h5 (c, i) = (if c = buffer_m (data_m v) then None else cells h (c, i))"
    and "next_addr h5 = Suc (next_addr h)"
    and "allocs h5 = Suc (allocs h)"
    and "set (sched h5) \<subseteq> set (sched h)"
    and "blocks h5 = (blocks h)(next_addr h \<mapsto> room h n, buffer_m (data_m v) := None)"
    and "sizeof_T h5 = sizeof_T h"
    and "size_m v < room h n"
proof -
  define old where "old = buffer_m (data_m v)"
  define a where "a = next_addr h"
  define sz where "sz = size_m v"
  have n0: "n \<noteq> 0" using n by simp
  have old_lt: "old < a" using valid_fresh[OF wf v] by (simp add: old_def a_def)
  then have ne: "old \<noteq> a" by simp
  have fresh: "\<And>i. cells h (a, i) = None" "blocks h a = None"
    using wf by (simp_all add: heap_ok_def a_def)
  have vcells: "\<And>i. (cells h (old, i) \<noteq> None) = (i < sz)"
    using v by (simp add: valid_def old_def sz_def)
  have possz: "pos \<le> sz" using pos by (simp add: sz_def)
  from RawMemory_ctor_Ret[OF c1] n0 have
    f1: "buffer_m nd = a" "capacity_m nd = n" "blocks h1 = (blocks h)(a \<mapsto> room h n)"
        "next_addr h1 = Suc a" "allocs h1 = Suc (allocs h)" "cells h1 = cells h"
        "set (sched h1) \<subseteq> set (sched h)" "sizeof_T h1 = sizeof_T h"
    by (simp_all add: a_def)
  from placement_new_Ret[OF c2] have
    f2: "cells h2 = (cells h1)((a, pos) \<mapsto> x)" "evolves h1 h2"
    by (simp_all add: RawMemory_plus_def f1)
  have g: "GetAddress (data_m v) = (old, 0)" "GetAddress nd = (a, 0)"
    by (simp_all add: GetAddress_def old_def f1)
  from c3 have c3': "relocate_n tr h2 (old, 0) pos (a, 0) = Ret h3 u3"
    by (simp add: g)
  note f3 = relocate_n_Ret_pt[OF c3' ne]
  from c4 have c4': "relocate_n tr h3 (old, pos) (sz - pos) (a, Suc pos) = Ret h4 u4"
    by (simp add: g ptr_add_def sz_def)
  note f4 = relocate_n_Ret_pt[OF c4' ne]
  note f5 = adopt_Ret_pt[OF c5, folded old_def sz_def]
  have ev: "blocks h4 = blocks h1" "next_addr h4 = next_addr h1" "allocs h4 = allocs h1"
    "set (sched h4) \<subseteq> set (sched h1)" "sizeof_T h4 = sizeof_T h1"
    using f2(2) f3(4) f4(4) by (auto simp: evolves_def)
  show "sizeof_T h5 = sizeof_T h" using f5(8) ev(5) f1(8) by simp
  have b2: "blocks h2 = blocks h1" "blocks h3 = blocks h1"
    using f2(2) f3(4) by (auto simp: evolves_def)
  have "in_block h1 (a, sz)"
  proof (cases "pos = sz")
    case True
    with placement_new_Ret[OF c2] show ?thesis by (simp add: RawMemory_plus_def f1)
  next
    case False
    with possz have "Suc pos \<le> sz" "sz < Suc pos + (sz - pos)" by simp_all
    from f4(3)[OF this] show ?thesis by (simp add: in_block_def b2)
  qed
  then show "size_m v < room h n" by (simp add: in_block_def f1(3) sz_def)
  show "data_m v1 = \<lparr>buffer_m = next_addr h, capacity_m = n\<rparr>"
    using f5(1) f1(1,2) by (cases nd) (simp add: a_def)
  show "size_m v1 = size_m v" using f5(2) by (simp add: sz_def)
  show "next_addr h5 = Suc (next_addr h)" using f5(4) ev(2) f1(4) by (simp add: a_def)
  show "allocs h5 = Suc (allocs h)" using f5(5) ev(3) f1(5) by simp
  show "set (sched h5) \<subseteq> set (sched h)" using f5(6) ev(4) f1(7) by blast
  have old_blk: "old = nullptr \<Longrightarrow> blocks h old = None"
    using wf by (simp add: heap_ok_def)
  show "blocks h5 = (blocks h)(next_addr h \<mapsto> room h n, buffer_m (data_m v) := None)"
  proof (cases "old = nullptr")
    case True
    have "(blocks h)(a \<mapsto> room h n, old := None) = (blocks h)(a \<mapsto> room h n)"
      using old_blk[OF True] ne by (auto simp: fun_eq_iff)
    then show ?thesis using True f5(7) ev(1) f1(3)
      by (simp add: a_def[symmetric] old_def[symmetric])
  next
    case False
    then show ?thesis using f5(7) ev(1) f1(3)
      by (simp add: a_def[symmetric] old_def[symmetric])
  qed
  have below: "cells h5 (a, i) = cells h (old, i)" if i: "i < pos" for i
  proof -
    have "cells h5 (a, i) = cells h4 (a, i)" using ne by (simp add: f5(3))
    also have "\<dots> = cells h3 (a, i)" using ne i by (simp add: f4(1))
    also have "\<dots> = cells h2 (old, i)" using ne i by (simp add: f3(1))
    also have "\<dots> = cells h (old, i)" using ne by (simp add: f2(1) f1(6))
    finally show ?thesis .
  qed
  have at: "cells h5 (a, pos) = Some x"
  proof -
    have "cells h5 (a, pos) = cells h4 (a, pos)" using ne by (simp add: f5(3))
    also have "\<dots> = cells h3 (a, pos)" using ne by (simp add: f4(1))
    also have "\<dots> = cells h2 (a, pos)" using ne by (simp add: f3(1))
    also have "\<dots> = Some x" by (simp add: f2(1))
    finally show ?thesis .
  qed
  have above: "cells h5 (a, i) = cells h (old, i - 1)" if i: "pos < i" "i \<le> sz" for i
  proof -
    have "cells h5 (a, i) = cells h4 (a, i)" using ne by (simp add: f5(3))
    also have "\<dots> = cells h3 (old, pos + (i - Suc pos))" using ne i by (simp add: f4(1))
    also have "pos + (i - Suc pos) = i - 1" using i by simp
    also have "cells h3 (old, i - 1) = cells h2 (old, i - 1)" using ne i by (simp add: f3(1))
    also have "\<dots> = cells h (old, i - 1)" using ne by (simp add: f2(1) f1(6))
    finally show ?thesis .
  qed
  have beyond: "cells h5 (a, i) = None" if i: "sz < i" for i
  proof -
    have "cells h5 (a, i) = cells h4 (a, i)" using ne by (simp add: f5(3))
    also have "\<dots> = cells h3 (a, i)" using ne i possz by (simp add: f4(1))
    also have "\<dots> = cells h2 (a, i)" using ne i possz by (simp add: f3(1))
    also have "\<dots> = None" using i possz by (simp add: f2(1) f1(6) fresh)
    finally show ?thesis .
  qed
  show "cells h5 (next_addr h, i) =
           (if i < pos then cells h (buffer_m (data_m v), i)
            else if i = pos then Some x
            else if i \<le> size_m v then cells h (buffer_m (data_m v), i - 1)
            else None)" for i
    using below[of i] at above[of i] beyond[of i]
    by (simp add: a_def[symmetric] old_def[symmetric] sz_def[symmetric] not_less not_le)
  show "cells h5 (c, i) = (if c = buffer_m (data_m v) then None else cells h (c, i))"
    if c: "c \<noteq> next_addr h" for c i
  proof (cases "c = old \<and> i < sz")
    case True
    then show ?thesis by (simp add: f5(3) old_def[symmetric])
  next
    case False
    have ca: "c \<noteq> a" using c by (simp add: a_def)
    have "cells h5 (c, i) = cells h4 (c, i)" using False by (auto simp: f5(3))
    also have "\<dots> = cells h3 (c, i)" using False ca possz by (auto simp: f4(1))
    also have "\<dots> = cells h2 (c, i)" using False ca possz by (auto simp: f3(1))
    also have "\<dots> = cells h (c, i)" using ca by (simp add: f2(1) f1(6))
    finally show ?thesis using False vcells[of i] by (auto simp: old_def[symmetric])
  qed
qed


lemma elems_nth: "i < size_m v \<Longrightarrow> elems h v ! i = cells h (buffer_m (data_m v), i)"
  by (simp add: elems_def)

lemma length_elems [simp]: "length (elems h v) = size_m v"
  by (simp add: elems_def)

lemma elems_inserted:
  assumes "size_m v' = Suc (size_m v)" and "pos \<le> size_m v"
    and "\<And>i. i \<le> size_m v \<Longrightarrow> cells h' (buffer_m (data_m v'), i) =
           (if i < pos then cells h (buffer_m (data_m v), i)
            else if i = pos then Some x
            else cells h (buffer_m (data_m v), i - 1))"
  shows "elems h' v' = take pos (elems h v) @ Some x # drop pos (elems h v)"
proof (rule nth_equalityI)
  show "length (elems h' v') = length (take pos (elems h v) @ Some x # drop pos (elems h v))"
    using assms(1,2) by simp
next
  fix i assume "i < length (elems h' v')"
  then have i: "i \<le> size_m v" using assms(1) by simp
  then have l: "elems h' v' ! i = cells h' (buffer_m (data_m v'), i)"
    using assms(1) by (simp add: elems_nth)
  show "elems h' v' ! i = (take pos (elems h v) @ Some x # drop pos (elems h v)) ! i"
  proof (cases "i < pos")
    case True
    then show ?thesis using l assms(2) assms(3)[of i] i
      by (simp add: nth_append elems_nth)
  next
    case False
    show ?thesis
    proof (cases "i = pos")
      case True
      then show ?thesis using l assms(2) assms(3)[of i] i
        by (simp add: nth_append)
    next
      case ne: False
      with False have gt: "pos < i" by simp
      then obtain k where k: "i - pos = Suc k" by (cases "i - pos") auto
      have "pos + k = i - 1" using k gt by simp
      moreover have "i - 1 < size_m v" using i gt by simp
      ultimately show ?thesis using l assms(2) assms(3)[of i] i False ne k
        by (simp add: nth_append elems_nth min_def)
    qed
  qed
qed

lemma with_vec_rethrow_Ret [simp]: "with_vec v (rethrow_after c e) \<noteq> Ret s u"
  by (auto simp: with_vec_def split: res.splits)

lemma valid_cells: "valid h v \<Longrightarrow> (cells h (buffer_m (data_m v), i) \<noteq> None) = (i < size_m v)"
  by (simp add: valid_def)

lemma heap_ok_fresh:
  "heap_ok h \<Longrightarrow> next_addr h \<le> a \<Longrightarrow> blocks h a = None \<and> cells h (a, i) = None"
  by (simp add: heap_ok_def)

lemma wf_heap_ok: "wf_heap h \<Longrightarrow> heap_ok h"
  by (simp add: wf_heap_def)

lemma push_back_in_place:
  assumes wf: "heap_ok h" and v: "valid h v" and lt: "size_m v < capacity_m (data_m v)"
    and p: "placement_new nt h (RawMemory_plus (data_m v) (size_m v)) x = Ret h' u"
  shows "elems h' (v\<lparr>size_m := size_m v + 1\<rparr>) = elems h v @ [Some x]"
    and "valid h' (v\<lparr>size_m := size_m v + 1\<rparr>)"
    and "heap_ok h'"
    and "evolves h h'"
proof -
  define buf where "buf = buffer_m (data_m v)"
  define sz where "sz = size_m v"
  from placement_new_Ret[OF p] have
    f: "cells h' = (cells h)((buf, sz) \<mapsto> x)" and ev: "evolves h h'"
    by (simp_all add: RawMemory_plus_def buf_def sz_def)
  show "evolves h h'" by (rule ev)
  have c: "cells h' (c, i) = (if c = buf \<and> i = sz then Some x else cells h (c, i))" for c i
    by (simp add: f)
  have "map (\<lambda>i. cells h' (buf, i)) [0..<sz] = map (\<lambda>i. cells h (buf, i)) [0..<sz]"
    by (rule map_cong) (simp_all add: c)
  then show "elems h' (v\<lparr>size_m := size_m v + 1\<rparr>) = elems h v @ [Some x]"
    by (simp add: elems_def buf_def[symmetric] sz_def[symmetric] c)
  have blk: "blocks h' = blocks h" "next_addr h' = next_addr h" "sizeof_T h' = sizeof_T h"
    using ev by (simp_all add: evolves_def)
  show "valid h' (v\<lparr>size_m := size_m v + 1\<rparr>)"
    using v lt valid_cells[OF v]
    by (auto simp: valid_def blk c buf_def[symmetric] sz_def[symmetric])
  have "buf < next_addr h" using valid_fresh[OF wf v] by (simp add: buf_def)
  then show "heap_ok h'"
    using wf by (auto simp: heap_ok_def blk c)
qed

lemma push_back_body_Ret:
  assumes wf: "heap_ok h" and v: "valid h v"
    and r: "push_back_body nt tr h v x = Ret (h', v') u"
  shows "size_m v' = Suc (size_m v)"
    and "elems h' v' = elems h v @ [Some x]"
    and "valid h' v'"
    and "heap_ok h'"
    and "set (sched h') \<subseteq> set (sched h)"
    and "size_m v < capacity_m (data_m v) \<Longrightarrow>
           data_m v' = data_m v \<and> allocs h' = allocs h \<and> blocks h' = blocks h"
    and "\<not> size_m v < capacity_m (data_m v) \<Longrightarrow>
           data_m v' = \<lparr>buffer_m = next_addr h,
                        capacity_m = (if size_m v = 0 then 1 else 2 * size_m v)\<rparr> \<and>
           allocs h' = Suc (allocs h)"
    and "sizeof_T h' = sizeof_T h"
proof -
  have "size_m v' = Suc (size_m v) \<and> elems h' v' = elems h v @ [Some x] \<and> valid h' v' \<and>
        heap_ok h' \<and> set (sched h') \<subseteq> set (sched h) \<and> sizeof_T h' = sizeof_T h \<and>
        (size_m v < capacity_m (data_m v) \<longrightarrow>
           data_m v' = data_m v \<and> allocs h' = allocs h \<and> blocks h' = blocks h) \<and>
        (\<not> size_m v < capacity_m (data_m v) \<longrightarrow>
           data_m v' = \<lparr>buffer_m = next_addr h,
                        capacity_m = (if size_m v = 0 then 1 else 2 * size_m v)\<rparr> \<and>
           allocs h' = Suc (allocs h))"
  proof (cases "size_m v < capacity_m (data_m v)")
    case True
    with r obtain u1 where
      p: "placement_new nt h (RawMemory_plus (data_m v) (size_m v)) x = Ret h' u1" and
      v': "v' = v\<lparr>size_m := size_m v + 1\<rparr>"
      by (auto simp: push_back_body_def split: res.splits)
    from push_back_in_place[OF wf v True p] True v' show ?thesis
      by (simp add: evolves_def)
  next
    case False
    define n where "n = (if size_m v = 0 then 1 else 2 * size_m v)"
    have n: "size_m v < n" by (simp add: n_def)
    from r False obtain h1 nd h2 h3 h4 v1 where
      c1: "RawMemory_ctor h n = Ret h1 nd" and
      c2: "placement_new nt h1 (RawMemory_plus nd (size_m v)) x = Ret h2 ()" and
      c3: "relocate_n tr h2 (GetAddress (data_m v)) (size_m v) (GetAddress nd) = Ret h3 ()" and
      c5: "adopt h3 v nd = Ret (h4, v1) ()" and
      e: "h' = h4" "v' = v1\<lparr>size_m := size_m v1 + 1\<rparr>"
      unfolding push_back_body_def n_def[symmetric]
      by (auto split: res.splits prod.splits)
    have c4: "relocate_n tr h3 (ptr_add (GetAddress (data_m v)) (size_m v)) (size_m v - size_m v)
               (ptr_add (ptr_add (GetAddress nd) (size_m v)) 1) = Ret h3 ()"
      by simp
    note core = realloc_core[OF wf v le_refl n c1 c2 c3 c4 c5]
    have rn: "room h n = n"
      using room_grow[OF heap_ok_sizeof[OF wf] valid_bytes[OF wf v]] core(10)
      unfolding n_def[symmetric] by (simp add: room_eq heap_ok_sizeof[OF wf])
    define a where "a = next_addr h"
    have old_lt: "buffer_m (data_m v) < a" using valid_fresh[OF wf v] by (simp add: a_def)
    have a0: "0 < a" using wf by (simp add: heap_ok_def a_def)
    have cells_a: "cells h4 (a, i) =
           (if i < size_m v then cells h (buffer_m (data_m v), i)
            else if i = size_m v then Some x else None)" for i
      using core(3)[of i] by (auto simp: a_def)
    have 1: "size_m v' = Suc (size_m v)" using e core(2) by simp
    have 2: "elems h' v' = take (size_m v) (elems h v) @ Some x # drop (size_m v) (elems h v)"
    proof (rule elems_inserted[OF 1 le_refl])
      fix i assume "i \<le> size_m v"
      then show "cells h' (buffer_m (data_m v'), i) =
         (if i < size_m v then cells h (buffer_m (data_m v), i)
          else if i = size_m v then Some x else cells h (buffer_m (data_m v), i - 1))"
        using e core(1) cells_a[of i] by (simp add: a_def)
    qed
    have 3: "valid h' v'"
      using e core(1,2,8) n old_lt a0 cells_a valid_cells[OF v]
      by (auto simp: valid_def a_def[symmetric] nullptr_def rn)
    have 4: "heap_ok h'"
      using e wf core(4,5,8,9) old_lt room_bytes[of h n]
      by (auto simp: heap_ok_def a_def[symmetric] nullptr_def)
    show ?thesis
      using 1 2 3 4 False e core(1,6,7,9) by (simp add: n_def)
  qed
  then show "size_m v' = Suc (size_m v)"
    and "elems h' v' = elems h v @ [Some x]"
    and "valid h' v'"
    and "heap_ok h'"
    and "set (sched h') \<subseteq> set (sched h)"
    and "size_m v < capacity_m (data_m v) \<Longrightarrow>
           data_m v' = data_m v \<and> allocs h' = allocs h \<and> blocks h' = blocks h"
    and "\<not> size_m v < capacity_m (data_m v) \<Longrightarrow>
           data_m v' = \<lparr>buffer_m = next_addr h,
                        capacity_m = (if size_m v = 0 then 1 else 2 * size_m v)\<rparr> \<and>
           allocs h' = Suc (allocs h)"
    and "sizeof_T h' = sizeof_T h"
    by blast+
qed


text \<open>A block that was just allocated and is given back: the allocation table is as before.\<close>

lemma fresh_block_freed:
  assumes wf: "heap_ok h" and n: "n \<noteq> 0"
    and c1: "RawMemory_ctor h n = Ret h1 nd"
    and ev: "evolves h1 h2"
    and d: "RawMemory_dtor h2 nd = Ret h3 u"
  shows "blocks h3 = blocks h" and "cells h3 = cells h2" and "next_addr h3 = Suc (next_addr h)"
    and "allocs h3 = Suc (allocs h)" and "set (sched h3) \<subseteq> set (sched h)"
    and "buffer_m nd = next_addr h" and "sizeof_T h3 = sizeof_T h"
proof -
  from RawMemory_ctor_Ret[OF c1] n have
    f1: "buffer_m nd = next_addr h" "blocks h1 = (blocks h)(next_addr h \<mapsto> room h n)"
        "next_addr h1 = Suc (next_addr h)" "allocs h1 = Suc (allocs h)"
        "set (sched h1) \<subseteq> set (sched h)" "sizeof_T h1 = sizeof_T h"
    by simp_all
  have a0: "next_addr h \<noteq> nullptr" using wf by (simp add: heap_ok_def nullptr_def)
  from RawMemory_dtor_Ret[OF d] a0 f1(1) have
    f2: "cells h3 = cells h2" "next_addr h3 = next_addr h2" "allocs h3 = allocs h2"
        "sched h3 = sched h2" "blocks h3 = (blocks h2)(next_addr h := None)"
        "sizeof_T h3 = sizeof_T h2"
    by simp_all
  have fresh: "blocks h (next_addr h) = None" using wf by (simp add: heap_ok_def)
  from ev have e: "blocks h2 = blocks h1" "next_addr h2 = next_addr h1" "allocs h2 = allocs h1"
    "set (sched h2) \<subseteq> set (sched h1)" "sizeof_T h2 = sizeof_T h1"
    by (simp_all add: evolves_def)
  show "sizeof_T h3 = sizeof_T h" using f2(6) e(5) f1(6) by simp
  show "blocks h3 = blocks h" using f2(5) e(1) f1(2) fresh by (auto simp: fun_eq_iff)
  show "cells h3 = cells h2" by (rule f2(1))
  show "next_addr h3 = Suc (next_addr h)" using f2(2) e(2) f1(3) by simp
  show "allocs h3 = Suc (allocs h)" using f2(3) e(3) f1(4) by simp
  show "set (sched h3) \<subseteq> set (sched h)" using f2(4) e(4) f1(5) by auto
  show "buffer_m nd = next_addr h" by (rule f1(1))
qed



subsection \<open>Steps that leave the allocator alone\<close>

lemma rethrow_destroy_evolves:
  "rethrow_after (destroy_n h1 d k) e = (Exc h2 e' :: ('a heap, unit) res) \<Longrightarrow> evolves h1 h2"
  by (auto dest!: rethrow_after_Exc destroy_n_Ret)

lemma assign_value_evolves:
  "assign_value h d x = Ret h1 u \<or> assign_value h d x = Exc h1 e \<Longrightarrow> evolves h h1"
  by (auto simp: assign_value_def evolves_def split: if_splits prod.splits dest!: tick_elim)

lemma copy_assign_evolves:
  "copy_assign h s d = Ret h1 u \<or> copy_assign h s d = Exc h1 e \<Longrightarrow> evolves h h1"
  by (auto simp: copy_assign_def split: option.splits
           dest: assign_value_evolves[OF disjI1] assign_value_evolves[OF disjI2])

lemma move_assign_evolves:
  "move_assign tr h s d = Ret h1 u \<or> move_assign tr h s d = Exc h1 e \<Longrightarrow> evolves h h1"
  by (auto simp: move_assign_def evolves_def split: option.splits res.splits
           dest!: assign_value_evolves[OF disjI1] assign_value_evolves[OF disjI2])

lemma uninitialized_copy_loop_evolves:
  "uninitialized_copy_loop h first count d built = Ret h1 u \<or>
   uninitialized_copy_loop h first count d built = Exc h1 e \<Longrightarrow> evolves h h1"
proof (induction count arbitrary: h first built)
  case 0
  then show ?case by auto
next
  case (Suc count)
  show ?case
  proof (cases "copy_construct h first (ptr_add d built)")
    case (Ret h2 u2)
    then have "evolves h h2" by (auto dest: copy_construct_Ret)
    moreover have "evolves h2 h1" using Suc.prems Ret by (intro Suc.IH) simp
    ultimately show ?thesis by (rule evolves_trans)
  next
    case (Exc h2 e2)
    then have "evolves h h2" by (auto dest: copy_construct_Exc)
    moreover have "evolves h2 h1" using Suc.prems Exc by (auto dest: rethrow_destroy_evolves)
    ultimately show ?thesis by (rule evolves_trans)
  next
    case UB
    with Suc.prems show ?thesis by simp
  qed
qed

lemma uninitialized_move_loop_evolves:
  "uninitialized_move_loop tr h first count d built = Ret h1 u \<or>
   uninitialized_move_loop tr h first count d built = Exc h1 e \<Longrightarrow> evolves h h1"
proof (induction count arbitrary: h first built)
  case 0
  then show ?case by auto
next
  case (Suc count)
  show ?case
  proof (cases "move_construct tr h first (ptr_add d built)")
    case (Ret h2 u2)
    then have "evolves h h2" by (auto dest: move_construct_Ret)
    moreover have "evolves h2 h1" using Suc.prems Ret by (intro Suc.IH) simp
    ultimately show ?thesis by (rule evolves_trans)
  next
    case (Exc h2 e2)
    then have "evolves h h2" by (auto dest: move_construct_Exc)
    moreover have "evolves h2 h1" using Suc.prems Exc by (auto dest: rethrow_destroy_evolves)
    ultimately show ?thesis by (rule evolves_trans)
  next
    case UB
    with Suc.prems show ?thesis by simp
  qed
qed

lemma uninitialized_value_construct_loop_evolves:
  "uninitialized_value_construct_loop tr h first n built = Ret h1 u \<or>
   uninitialized_value_construct_loop tr h first n built = Exc h1 e \<Longrightarrow> evolves h h1"
proof (induction n arbitrary: h built)
  case 0
  then show ?case by auto
next
  case (Suc n)
  show ?case
  proof (cases "placement_new False h (ptr_add first built) (value_init tr)")
    case (Ret h2 u2)
    then have "evolves h h2" by (auto dest: placement_new_Ret)
    moreover have "evolves h2 h1" using Suc.prems Ret by (intro Suc.IH) simp
    ultimately show ?thesis by (rule evolves_trans)
  next
    case (Exc h2 e2)
    then have "evolves h h2" by (auto dest: placement_new_Exc)
    moreover have "evolves h2 h1" using Suc.prems Exc by (auto dest: rethrow_destroy_evolves)
    ultimately show ?thesis by (rule evolves_trans)
  next
    case UB
    with Suc.prems show ?thesis by simp
  qed
qed

lemma move_loop_evolves:
  "move_loop tr h first n d = Ret h1 u \<or> move_loop tr h first n d = Exc h1 e \<Longrightarrow> evolves h h1"
proof (induction n arbitrary: h first d)
  case 0
  then show ?case by auto
next
  case (Suc n)
  show ?case
  proof (cases "move_assign tr h first d")
    case (Ret h2 u2)
    then have "evolves h h2" by (auto dest: move_assign_evolves[OF disjI1])
    moreover have "evolves h2 h1" using Suc.prems Ret by (intro Suc.IH) simp
    ultimately show ?thesis by (rule evolves_trans)
  next
    case (Exc h2 e2)
    then have "evolves h h2" by (auto dest: move_assign_evolves[OF disjI2])
    then show ?thesis using Suc.prems Exc by simp
  next
    case UB
    with Suc.prems show ?thesis by simp
  qed
qed

lemma move_backward_loop_evolves:
  "move_backward_loop tr h n l d = Ret h1 u \<or> move_backward_loop tr h n l d = Exc h1 e \<Longrightarrow>
     evolves h h1"
proof (induction n arbitrary: h l d)
  case 0
  then show ?case by auto
next
  case (Suc n)
  show ?case
  proof (cases "move_assign tr h (ptr_sub l 1) (ptr_sub d 1)")
    case (Ret h2 u2)
    then have "evolves h h2" by (auto dest: move_assign_evolves[OF disjI1])
    moreover have "evolves h2 h1" using Suc.prems Ret by (intro Suc.IH) (simp split: if_splits)
    ultimately show ?thesis by (rule evolves_trans)
  next
    case (Exc h2 e2)
    then have "evolves h h2" by (auto dest: move_assign_evolves[OF disjI2])
    then show ?thesis using Suc.prems Exc by (simp split: if_splits)
  next
    case UB
    with Suc.prems show ?thesis by (simp split: if_splits)
  qed
qed

lemma assign_loop_evolves:
  "assign_loop h rd td i n = Ret h1 u \<or> assign_loop h rd td i n = Exc h1 e \<Longrightarrow> evolves h h1"
proof (induction n arbitrary: h i)
  case 0
  then show ?case by auto
next
  case (Suc n)
  show ?case
  proof (cases "copy_assign h (RawMemory_plus rd i) (RawMemory_plus td i)")
    case (Ret h2 u2)
    then have "evolves h h2" by (auto dest: copy_assign_evolves[OF disjI1])
    moreover have "evolves h2 h1" using Suc.prems Ret by (intro Suc.IH) simp
    ultimately show ?thesis by (rule evolves_trans)
  next
    case (Exc h2 e2)
    then have "evolves h h2" by (auto dest: copy_assign_evolves[OF disjI2])
    then show ?thesis using Suc.prems Exc by simp
  next
    case UB
    with Suc.prems show ?thesis by simp
  qed
qed

lemma relocate_n_evolves:
  "relocate_n tr h first count d = Ret h1 u \<or> relocate_n tr h first count d = Exc h1 e \<Longrightarrow>
     evolves h h1"
  by (auto simp: relocate_n_def uninitialized_move_n_def uninitialized_copy_n_def
           split: if_splits
           dest: uninitialized_move_loop_evolves[OF disjI1] uninitialized_move_loop_evolves[OF disjI2]
                 uninitialized_copy_loop_evolves[OF disjI1] uninitialized_copy_loop_evolves[OF disjI2])

lemma destroy_n_evolves: "destroy_n h d n = Ret h1 u \<Longrightarrow> evolves h h1"
  by (auto dest: destroy_n_Ret)

subsection \<open>Calls that return: nothing throws and no precondition is violated\<close>

lemma quiet_mono: "quiet h \<Longrightarrow> set (sched h') \<subseteq> set (sched h) \<Longrightarrow> quiet h'"
  by (auto simp: quiet_def)

lemma quiet_evolves: "quiet h \<Longrightarrow> evolves h h' \<Longrightarrow> quiet h'"
  by (auto simp: quiet_def evolves_def)

lemma tick_quiet: "quiet h \<Longrightarrow> \<exists>h1. tick h = (False, h1)"
  by (cases "sched h") (auto simp: tick_def quiet_def)

lemma placement_new_returns:
  assumes "quiet h" and "in_block h p" and "cells h p = None"
  shows "\<exists>h1. placement_new nt h p x = Ret h1 ()"
proof -
  from tick_quiet[OF assms(1)] obtain h1 where "tick h = (False, h1)" by blast
  with assms(2,3) show ?thesis by (simp add: placement_new_def)
qed

lemma destroy_n_returns:
  "(\<And>i. i < n \<Longrightarrow> cells h (a, s + i) \<noteq> None) \<Longrightarrow> \<exists>h1. destroy_n h (a, s) n = Ret h1 ()"
proof (induction n arbitrary: h s)
  case 0
  then show ?case by simp
next
  case (Suc n)
  from Suc.prems[of 0] have c: "cells h (a, s) \<noteq> None" by simp
  define h2 where "h2 = h\<lparr>cells := (cells h)((a, s) := None)\<rparr>"
  from c have d: "destroy_at h (a, s) = Ret h2 ()" by (simp add: destroy_at_def h2_def)
  have "\<exists>h1. destroy_n h2 (a, Suc s) n = Ret h1 ()"
  proof (rule Suc.IH)
    fix i assume "i < n"
    then show "cells h2 (a, Suc s + i) \<noteq> None"
      using Suc.prems[of "Suc i"] by (simp add: h2_def)
  qed
  with d show ?case by (simp add: ptr_add_def)
qed

lemma uninitialized_copy_loop_returns:
  assumes "b \<noteq> a"
  shows "quiet h \<Longrightarrow> (\<And>i. i < count \<Longrightarrow> cells h (b, s + i) \<noteq> None) \<Longrightarrow>
     (\<And>i. i < count \<Longrightarrow> cells h (a, t + built + i) = None \<and> in_block h (a, t + built + i)) \<Longrightarrow>
     \<exists>h1. uninitialized_copy_loop h (b, s) count (a, t) built = Ret h1 ()"
proof (induction count arbitrary: h s built)
  case 0
  then show ?case by simp
next
  case (Suc count)
  from Suc.prems(2)[of 0] obtain x where x: "cells h (b, s) = Some x" by auto
  from Suc.prems(3)[of 0] have d: "cells h (a, t + built) = None" "in_block h (a, t + built)"
    by simp_all
  from placement_new_returns[OF Suc.prems(1) d(2) d(1)] obtain h2 where
    p: "placement_new False h (a, t + built) x = Ret h2 ()" by blast
  then have cc: "copy_construct h (b, s) (ptr_add (a, t) built) = Ret h2 ()"
    by (simp add: copy_construct_def x ptr_add_def)
  from placement_new_Ret[OF p] have
    f: "cells h2 = (cells h)((a, t + built) \<mapsto> x)" "evolves h h2" by simp_all
  have blk: "blocks h2 = blocks h" using f(2) by (simp add: evolves_def)
  have "\<exists>h1. uninitialized_copy_loop h2 (b, Suc s) count (a, t) (Suc built) = Ret h1 ()"
  proof (rule Suc.IH)
    show "quiet h2" using Suc.prems(1) f(2) by (rule quiet_evolves)
  next
    fix i assume "i < count"
    then show "cells h2 (b, Suc s + i) \<noteq> None"
      using Suc.prems(2)[of "Suc i"] assms by (simp add: f(1))
  next
    fix i assume "i < count"
    then show "cells h2 (a, t + Suc built + i) = None \<and> in_block h2 (a, t + Suc built + i)"
      using Suc.prems(3)[of "Suc i"] by (simp add: f(1) in_block_def blk)
  qed
  with cc show ?case by (simp add: ptr_add_def)
qed

lemma uninitialized_move_loop_returns:
  assumes "b \<noteq> a"
  shows "quiet h \<Longrightarrow> (\<And>i. i < count \<Longrightarrow> cells h (b, s + i) \<noteq> None) \<Longrightarrow>
     (\<And>i. i < count \<Longrightarrow> cells h (a, t + built + i) = None \<and> in_block h (a, t + built + i)) \<Longrightarrow>
     \<exists>h1. uninitialized_move_loop tr h (b, s) count (a, t) built = Ret h1 ()"
proof (induction count arbitrary: h s built)
  case 0
  then show ?case by simp
next
  case (Suc count)
  from Suc.prems(2)[of 0] obtain x where x: "cells h (b, s) = Some x" by auto
  from Suc.prems(3)[of 0] have d: "cells h (a, t + built) = None" "in_block h (a, t + built)"
    by simp_all
  from placement_new_returns[OF Suc.prems(1) d(2) d(1)] obtain h2 where
    p: "placement_new (nothrow_move_constructible tr) h (a, t + built) x = Ret h2 ()" by blast
  define h3 where "h3 = h2\<lparr>cells := (cells h2)((b, s) \<mapsto> moved_from tr x)\<rparr>"
  from p have cc: "move_construct tr h (b, s) (ptr_add (a, t) built) = Ret h3 ()"
    by (simp add: move_construct_def x ptr_add_def h3_def)
  from move_construct_Ret[OF cc] x have
    f: "cells h3 = (cells h)((a, t + built) \<mapsto> x, (b, s) \<mapsto> moved_from tr x)" "evolves h h3"
    by (simp_all add: ptr_add_def)
  have blk: "blocks h3 = blocks h" using f(2) by (simp add: evolves_def)
  have "\<exists>h1. uninitialized_move_loop tr h3 (b, Suc s) count (a, t) (Suc built) = Ret h1 ()"
  proof (rule Suc.IH)
    show "quiet h3" using Suc.prems(1) f(2) by (rule quiet_evolves)
  next
    fix i assume "i < count"
    then show "cells h3 (b, Suc s + i) \<noteq> None"
      using Suc.prems(2)[of "Suc i"] assms by (simp add: f(1))
  next
    fix i assume "i < count"
    then show "cells h3 (a, t + Suc built + i) = None \<and> in_block h3 (a, t + Suc built + i)"
      using Suc.prems(3)[of "Suc i"] assms by (simp add: f(1) in_block_def blk)
  qed
  with cc show ?case by (simp add: ptr_add_def)
qed

lemma relocate_n_returns:
  assumes "b \<noteq> a" and "quiet h"
    and "\<And>i. i < count \<Longrightarrow> cells h (b, s + i) \<noteq> None"
    and "\<And>i. i < count \<Longrightarrow> cells h (a, t + i) = None \<and> in_block h (a, t + i)"
  shows "\<exists>h1. relocate_n tr h (b, s) count (a, t) = Ret h1 ()"
proof -
  have m: "\<exists>h1. uninitialized_move_loop tr h (b, s) count (a, t) 0 = Ret h1 ()"
    by (rule uninitialized_move_loop_returns[OF assms(1,2,3)]) (use assms(4) in auto)
  have c: "\<exists>h1. uninitialized_copy_loop h (b, s) count (a, t) 0 = Ret h1 ()"
    by (rule uninitialized_copy_loop_returns[OF assms(1,2,3)]) (use assms(4) in auto)
  from m c show ?thesis
    by (simp add: relocate_n_def uninitialized_move_n_def uninitialized_copy_n_def)
qed

lemma RawMemory_ctor_returns: "quiet h \<Longrightarrow> \<exists>h1 nd. RawMemory_ctor h n = Ret h1 nd"
  by (auto simp: RawMemory_ctor_def Allocate_def operator_new_def dest!: tick_quiet)

lemma RawMemory_dtor_returns:
  "buffer_m m = nullptr \<or> blocks h (buffer_m m) \<noteq> None \<Longrightarrow> \<exists>h1. RawMemory_dtor h m = Ret h1 ()"
  by (auto simp: RawMemory_dtor_def Deallocate_def operator_delete_def)

lemma adopt_returns:
  assumes "\<And>i. i < size_m v \<Longrightarrow> cells h (buffer_m (data_m v), i) \<noteq> None"
    and "buffer_m (data_m v) = nullptr \<or> blocks h (buffer_m (data_m v)) \<noteq> None"
  shows "\<exists>h1 v1. adopt h v nd = Ret (h1, v1) ()"
proof -
  have "\<exists>h1. destroy_n h (buffer_m (data_m v), 0) (size_m v) = Ret h1 ()"
    by (rule destroy_n_returns) (simp add: assms(1))
  then obtain h1 where d: "destroy_n h (GetAddress (data_m v)) (size_m v) = Ret h1 ()"
    by (auto simp: GetAddress_def)
  from destroy_n_evolves[OF d] have "blocks h1 = blocks h" by (simp add: evolves_def)
  with assms(2) have
    "\<exists>h2. RawMemory_dtor h1 (snd (RawMemory_Swap (data_m v) nd)) = Ret h2 ()"
    by (intro RawMemory_dtor_returns) (simp add: RawMemory_Swap_def)
  with d show ?thesis
    by (auto simp: adopt_def with_vec_def split: prod.splits)
qed


lemma valid_block:
  assumes "valid h v"
  shows "buffer_m (data_m v) = nullptr \<or> blocks h (buffer_m (data_m v)) \<noteq> None"
  using assms by (auto simp: valid_def split: if_splits)

lemma grow_returns:
  assumes wf: "heap_ok h" and v: "valid h v" and q: "quiet h"
    and pos: "pos \<le> size_m v" and n: "size_m v < n" and fit: "n * sizeof_T h < 2 ^ 64"
  shows "\<exists>h1 nd h2 h3 h4 h5 v1.
           RawMemory_ctor h n = Ret h1 nd \<and>
           placement_new nt h1 (RawMemory_plus nd pos) x = Ret h2 () \<and>
           relocate_n tr h2 (GetAddress (data_m v)) pos (GetAddress nd) = Ret h3 () \<and>
           relocate_n tr h3 (ptr_add (GetAddress (data_m v)) pos) (size_m v - pos)
             (ptr_add (ptr_add (GetAddress nd) pos) 1) = Ret h4 () \<and>
           adopt h4 v nd = Ret (h5, v1) ()"
proof -
  define old where "old = buffer_m (data_m v)"
  define a where "a = next_addr h"
  define sz where "sz = size_m v"
  have n0: "n \<noteq> 0" using n by simp
  have old_lt: "old < a" using valid_fresh[OF wf v] by (simp add: old_def a_def)
  then have ne: "old \<noteq> a" by simp
  have fresh: "\<And>i. cells h (a, i) = None"
    using wf by (simp add: heap_ok_def a_def)
  have vcells: "\<And>i. (cells h (old, i) \<noteq> None) = (i < sz)"
    using v by (simp add: valid_def old_def sz_def)
  have possz: "pos \<le> sz" "sz < n" using pos n by (simp_all add: sz_def)
  from RawMemory_ctor_returns[OF q] obtain h1 nd where c1: "RawMemory_ctor h n = Ret h1 nd"
    by blast
  from RawMemory_ctor_Ret[OF c1] n0 room_eq[OF heap_ok_sizeof[OF wf] fit] have
    f1: "buffer_m nd = a" "blocks h1 = (blocks h)(a \<mapsto> n)" "cells h1 = cells h"
        "set (sched h1) \<subseteq> set (sched h)"
    by (simp_all add: a_def)
  have g: "GetAddress (data_m v) = (old, 0)" "GetAddress nd = (a, 0)"
    "RawMemory_plus nd pos = (a, pos)"
    by (simp_all add: GetAddress_def RawMemory_plus_def old_def f1)
  have q1: "quiet h1" using q f1(4) by (rule quiet_mono)
  have "in_block h1 (a, pos)" using possz by (simp add: in_block_def f1(2))
  moreover have "cells h1 (a, pos) = None" by (simp add: f1(3) fresh)
  ultimately obtain h2 where c2: "placement_new nt h1 (a, pos) x = Ret h2 ()"
    using placement_new_returns[OF q1] by blast
  from placement_new_Ret[OF c2] have
    f2: "cells h2 = (cells h1)((a, pos) \<mapsto> x)" "evolves h1 h2"
    by simp_all
  have q2: "quiet h2" using q1 f2(2) by (rule quiet_evolves)
  have b2: "blocks h2 = blocks h1" using f2(2) by (simp add: evolves_def)
  have "\<exists>h3. relocate_n tr h2 (old, 0) pos (a, 0) = Ret h3 ()"
  proof (rule relocate_n_returns[OF ne q2])
    fix i assume "i < pos"
    then show "cells h2 (old, 0 + i) \<noteq> None"
      using ne possz vcells[of i] by (simp add: f2(1) f1(3))
  next
    fix i assume "i < pos"
    then show "cells h2 (a, 0 + i) = None \<and> in_block h2 (a, 0 + i)"
      using possz by (simp add: f2(1) f1(3) fresh in_block_def b2 f1(2))
  qed
  then obtain h3 where c3: "relocate_n tr h2 (old, 0) pos (a, 0) = Ret h3 ()" by blast
  note f3 = relocate_n_Ret_pt[OF c3 ne]
  have q3: "quiet h3" using q2 f3(4) by (rule quiet_evolves)
  have b3: "blocks h3 = blocks h1" using f3(4) b2 by (simp add: evolves_def)
  have "\<exists>h4. relocate_n tr h3 (old, pos) (sz - pos) (a, Suc pos) = Ret h4 ()"
  proof (rule relocate_n_returns[OF ne q3])
    fix i assume i: "i < sz - pos"
    then have "cells h3 (old, pos + i) = cells h2 (old, pos + i)"
      using ne by (simp add: f3(1))
    then show "cells h3 (old, pos + i) \<noteq> None"
      using ne i vcells[of "pos + i"] by (simp add: f2(1) f1(3))
  next
    fix i assume i: "i < sz - pos"
    then have "cells h3 (a, Suc pos + i) = cells h2 (a, Suc pos + i)"
      using ne by (simp add: f3(1))
    then show "cells h3 (a, Suc pos + i) = None \<and> in_block h3 (a, Suc pos + i)"
      using i possz by (simp add: f2(1) f1(3) fresh in_block_def b3 f1(2))
  qed
  then obtain h4 where c4: "relocate_n tr h3 (old, pos) (sz - pos) (a, Suc pos) = Ret h4 ()"
    by blast
  note f4 = relocate_n_Ret_pt[OF c4 ne]
  have b4: "blocks h4 = blocks h1" using f4(4) b3 by (simp add: evolves_def)
  have "\<exists>h5 v1. adopt h4 v nd = Ret (h5, v1) ()"
  proof (rule adopt_returns)
    fix i assume i: "i < size_m v"
    show "cells h4 (buffer_m (data_m v), i) \<noteq> None"
    proof (cases "i < pos")
      case True
      then have "cells h4 (old, i) = cells h3 (old, i)" using ne by (simp add: f4(1))
      then show ?thesis using f3(2)[of i] True by (simp add: old_def)
    next
      case False
      then show ?thesis using f4(2)[of i] i by (simp add: old_def sz_def)
    qed
  next
    show "buffer_m (data_m v) = nullptr \<or> blocks h4 (buffer_m (data_m v)) \<noteq> None"
      using valid_block[OF v] ne by (auto simp: b4 f1(2) old_def)
  qed
  then obtain h5 v1 where c5: "adopt h4 v nd = Ret (h5, v1) ()" by blast
  from c1 c2 c3 c4 c5 show ?thesis
    by (simp add: g ptr_add_def sz_def)
qed

lemma push_back_body_returns:
  assumes wf: "heap_ok h" and v: "valid h v" and q: "quiet h"
    and fit: "(if size_m v = 0 then 1 else 2 * size_m v) * sizeof_T h < 2 ^ 64"
  shows "\<exists>h' v'. push_back_body nt tr h v x = Ret (h', v') ()"
proof (cases "size_m v < capacity_m (data_m v)")
  case True
  with v have "in_block h (RawMemory_plus (data_m v) (size_m v))"
    by (auto simp: in_block_def RawMemory_plus_def valid_def split: if_splits)
  moreover have "cells h (RawMemory_plus (data_m v) (size_m v)) = None"
    using valid_cells[OF v, of "size_m v"] by (simp add: RawMemory_plus_def)
  ultimately obtain h1 where
    "placement_new nt h (RawMemory_plus (data_m v) (size_m v)) x = Ret h1 ()"
    using placement_new_returns[OF q] by blast
  with True show ?thesis by (simp add: push_back_body_def)
next
  case False
  define n where "n = (if size_m v = 0 then 1 else 2 * size_m v)"
  have n: "size_m v < n" by (simp add: n_def)
  from grow_returns[OF wf v q le_refl n fit[folded n_def], of nt x tr]
  obtain h1 nd h2 h3 h5 v1 where
    "RawMemory_ctor h n = Ret h1 nd"
    "placement_new nt h1 (RawMemory_plus nd (size_m v)) x = Ret h2 ()"
    "relocate_n tr h2 (GetAddress (data_m v)) (size_m v) (GetAddress nd) = Ret h3 ()"
    "adopt h3 v nd = Ret (h5, v1) ()"
    by auto
  with False show ?thesis
    unfolding push_back_body_def n_def[symmetric] by simp
qed

lemma Append_body: "\<exists>nt. Append tr h v a = push_back_body nt tr h v (arg_value a)"
  by (cases a) (auto simp: PushBack_def PushBack_move_def)

lemma Append_all_returns:
  assumes "heap_ok h" and "valid h v" and "quiet h"
    and "2 * (size_m v + length as) * sizeof_T h < 2 ^ 64"
  shows "\<exists>h' v'. Append_all tr h v as = Ret (h', v') ()"
  using assms
proof (induction as arbitrary: h v)
  case Nil
  then show ?case by simp
next
  case (Cons a as)
  from Append_body obtain nt where b: "Append tr h v a = push_back_body nt tr h v (arg_value a)"
    by blast
  have "(if size_m v = 0 then 1 else 2 * size_m v) * sizeof_T h \<le>
        2 * (size_m v + length (a # as)) * sizeof_T h"
    by (intro mult_le_mono1) simp
  from this Cons.prems(4) have
    fit: "(if size_m v = 0 then 1 else 2 * size_m v) * sizeof_T h < 2 ^ 64"
    by (rule le_less_trans)
  from push_back_body_returns[OF Cons.prems(1,2,3) fit] obtain h1 v1 where
    p: "push_back_body nt tr h v (arg_value a) = Ret (h1, v1) ()"
    by blast
  note f = push_back_body_Ret[OF Cons.prems(1,2) p]
  have "quiet h1" using Cons.prems(3) f(5) by (rule quiet_mono)
  moreover have "2 * (size_m v1 + length as) * sizeof_T h1 < 2 ^ 64"
    using Cons.prems(4) f(1) f(8) by simp
  ultimately show ?case using Cons.IH[OF f(4) f(3)] b p by simp
qed

text \<open>Appends that stay within the capacity need no allocation.\<close>

lemma Append_all_returns_in_capacity:
  assumes "valid h v" and "quiet h" and "size_m v + length as \<le> capacity_m (data_m v)"
  shows "\<exists>h' v'. Append_all tr h v as = Ret (h', v') ()"
  using assms
proof (induction as arbitrary: h v)
  case Nil
  then show ?case by simp
next
  case (Cons a as)
  from Append_body obtain nt where b: "Append tr h v a = push_back_body nt tr h v (arg_value a)"
    by blast
  from Cons.prems(3) have lt: "size_m v < capacity_m (data_m v)" by simp
  with Cons.prems(1) have "in_block h (RawMemory_plus (data_m v) (size_m v))"
    by (auto simp: in_block_def RawMemory_plus_def valid_def split: if_splits)
  moreover have "cells h (RawMemory_plus (data_m v) (size_m v)) = None"
    using valid_cells[OF Cons.prems(1), of "size_m v"] by (simp add: RawMemory_plus_def)
  ultimately obtain h1 where
    pn: "placement_new nt h (RawMemory_plus (data_m v) (size_m v)) (arg_value a) = Ret h1 ()"
    using placement_new_returns[OF Cons.prems(2)] by blast
  define v1 where "v1 = v\<lparr>size_m := size_m v + 1\<rparr>"
  from pn lt have p: "push_back_body nt tr h v (arg_value a) = Ret (h1, v1) ()"
    by (simp add: push_back_body_def v1_def)
  note f = placement_new_Ret[OF pn]
  have c: "cells h1 (c, i) =
        (if c = buffer_m (data_m v) \<and> i = size_m v then Some (arg_value a) else cells h (c, i))"
    for c i
    using f by (simp add: RawMemory_plus_def)
  have blk: "blocks h1 = blocks h" using f by (simp add: evolves_def)
  have "valid h1 v1"
    using Cons.prems(1) lt valid_cells[OF Cons.prems(1)]
    by (auto simp: valid_def blk c v1_def)
  moreover have "quiet h1" using Cons.prems(2) f by (blast intro: quiet_evolves)
  moreover have "size_m v1 + length as \<le> capacity_m (data_m v1)"
    using Cons.prems(3) by (simp add: v1_def)
  ultimately show ?case using Cons.IH b p by simp
qed


lemma quiet_heap12: "quiet heap12"
  by (simp add: quiet_def heap12_def)

lemma quiet_heap0: "quiet heap0"
  by (simp add: quiet_def heap0_def)

lemma quiet_heap_ab: "quiet heap_ab"
  by (simp add: quiet_def heap_ab_def)

subsection \<open>Reserve\<close>

lemma Reserve_noop: "new_capacity \<le> capacity_m (data_m v) \<Longrightarrow> Reserve tr h v new_capacity = Ret (h, v) ()"
  by (simp add: Reserve_def)

lemma Reserve_grow_Ret:
  assumes lt: "capacity_m (data_m v) < n"
    and r: "Reserve tr h v n = Ret (h', v') u"
  shows "\<exists>h1 nd h2. RawMemory_ctor h n = Ret h1 nd \<and>
           relocate_n tr h1 (GetAddress (data_m v)) (size_m v) (GetAddress nd) = Ret h2 () \<and>
           adopt h2 v nd = Ret (h', v') ()"
  using assms by (auto simp: Reserve_def split: res.splits)

lemma Reserve_frame:
  assumes lt: "capacity_m (data_m v) < n"
    and r: "Reserve tr h v n = Ret (h', v') u"
  shows "capacity_m (data_m v') = n" and "size_m v' = size_m v" and "allocs h' = Suc (allocs h)"
proof -
  from Reserve_grow_Ret[OF assms] obtain h1 nd h2 where
    c1: "RawMemory_ctor h n = Ret h1 nd" and
    c3: "relocate_n tr h1 (GetAddress (data_m v)) (size_m v) (GetAddress nd) = Ret h2 ()" and
    c5: "adopt h2 v nd = Ret (h', v') ()"
    by blast
  have n0: "n \<noteq> 0" using lt by simp
  from RawMemory_ctor_Ret[OF c1] n0 have f1: "capacity_m nd = n" "allocs h1 = Suc (allocs h)"
    by simp_all
  from relocate_n_evolves[OF disjI1, OF c3] have f3: "allocs h2 = allocs h1"
    by (simp add: evolves_def)
  note f5 = adopt_Ret_pt[OF c5]
  show "capacity_m (data_m v') = n" using f5(1) f1(1) by simp
  show "size_m v' = size_m v" by (rule f5(2))
  show "allocs h' = Suc (allocs h)" using f5(5) f3 f1(2) by simp
qed

lemma Reserve_grow:
  assumes wf: "heap_ok h" and v: "valid h v" and lt: "capacity_m (data_m v) < n"
    and r: "Reserve tr h v n = Ret (h', v') u"
  shows "data_m v' = \<lparr>buffer_m = next_addr h, capacity_m = n\<rparr>"
    and "size_m v' = size_m v"
    and "\<And>i. cells h' (next_addr h, i) =
           (if i < size_m v then cells h (buffer_m (data_m v), i) else None)"
    and "\<And>c i. c \<noteq> next_addr h \<Longrightarrow>
           cells h' (c, i) = (if c = buffer_m (data_m v) then None else cells h (c, i))"
    and "next_addr h' = Suc (next_addr h)"
    and "set (sched h') \<subseteq> set (sched h)"
    and "blocks h' = (blocks h)(next_addr h \<mapsto> room h n, buffer_m (data_m v) := None)"
    and "sizeof_T h' = sizeof_T h"
proof -
  from Reserve_grow_Ret[OF lt r] obtain h1 nd h2 where
    c1: "RawMemory_ctor h n = Ret h1 nd" and
    c3: "relocate_n tr h1 (GetAddress (data_m v)) (size_m v) (GetAddress nd) = Ret h2 ()" and
    c5: "adopt h2 v nd = Ret (h', v') ()"
    by blast
  define old where "old = buffer_m (data_m v)"
  define a where "a = next_addr h"
  define sz where "sz = size_m v"
  have n0: "n \<noteq> 0" using lt by simp
  have old_lt: "old < a" using valid_fresh[OF wf v] by (simp add: old_def a_def)
  then have ne: "old \<noteq> a" by simp
  have fresh: "\<And>i. cells h (a, i) = None" "blocks h a = None"
    using wf by (simp_all add: heap_ok_def a_def)
  have vcells: "\<And>i. (cells h (old, i) \<noteq> None) = (i < sz)"
    using v by (simp add: valid_def old_def sz_def)
  from RawMemory_ctor_Ret[OF c1] n0 have
    f1: "buffer_m nd = a" "capacity_m nd = n" "blocks h1 = (blocks h)(a \<mapsto> room h n)"
        "next_addr h1 = Suc a" "cells h1 = cells h"
        "set (sched h1) \<subseteq> set (sched h)" "sizeof_T h1 = sizeof_T h"
    by (simp_all add: a_def)
  have g: "GetAddress (data_m v) = (old, 0)" "GetAddress nd = (a, 0)"
    by (simp_all add: GetAddress_def old_def f1)
  from c3 have c3': "relocate_n tr h1 (old, 0) sz (a, 0) = Ret h2 ()"
    by (simp add: g sz_def)
  note f3 = relocate_n_Ret_pt[OF c3' ne]
  note f5 = adopt_Ret_pt[OF c5, folded old_def sz_def]
  have ev: "blocks h2 = blocks h1" "next_addr h2 = next_addr h1"
    "set (sched h2) \<subseteq> set (sched h1)" "sizeof_T h2 = sizeof_T h1"
    using f3(4) by (auto simp: evolves_def)
  show "sizeof_T h' = sizeof_T h" using f5(8) ev(4) f1(7) by simp
  show "data_m v' = \<lparr>buffer_m = next_addr h, capacity_m = n\<rparr>"
    using f5(1) f1(1,2) by (cases nd) (simp add: a_def)
  show "size_m v' = size_m v" using f5(2) by (simp add: sz_def)
  show "next_addr h' = Suc (next_addr h)" using f5(4) ev(2) f1(4) by (simp add: a_def)
  show "set (sched h') \<subseteq> set (sched h)" using f5(6) ev(3) f1(6) by blast
  have old_blk: "old = nullptr \<Longrightarrow> blocks h old = None"
    using wf by (simp add: heap_ok_def)
  show "blocks h' = (blocks h)(next_addr h \<mapsto> room h n, buffer_m (data_m v) := None)"
  proof (cases "old = nullptr")
    case True
    have "(blocks h)(a \<mapsto> room h n, old := None) = (blocks h)(a \<mapsto> room h n)"
      using old_blk[OF True] ne by (auto simp: fun_eq_iff)
    then show ?thesis using True f5(7) ev(1) f1(3)
      by (simp add: a_def[symmetric] old_def[symmetric])
  next
    case False
    then show ?thesis using f5(7) ev(1) f1(3)
      by (simp add: a_def[symmetric] old_def[symmetric])
  qed
  show "cells h' (next_addr h, i) =
           (if i < size_m v then cells h (buffer_m (data_m v), i) else None)" for i
  proof -
    have "cells h' (a, i) = cells h2 (a, i)" using ne by (simp add: f5(3))
    also have "\<dots> = (if i < sz then cells h1 (old, i) else cells h1 (a, i))"
      using ne by (simp add: f3(1))
    also have "\<dots> = (if i < sz then cells h (old, i) else None)"
      by (simp add: f1(5) fresh)
    finally show ?thesis by (simp add: a_def old_def sz_def)
  qed
  show "cells h' (c, i) = (if c = buffer_m (data_m v) then None else cells h (c, i))"
    if c: "c \<noteq> next_addr h" for c i
  proof (cases "c = old \<and> i < sz")
    case True
    then show ?thesis by (simp add: f5(3) old_def[symmetric])
  next
    case False
    have ca: "c \<noteq> a" using c by (simp add: a_def)
    have "cells h' (c, i) = cells h2 (c, i)" using False by (auto simp: f5(3))
    also have "\<dots> = cells h1 (c, i)" using False ca by (auto simp: f3(1))
    also have "\<dots> = cells h (c, i)" by (simp add: f1(5))
    finally show ?thesis using False vcells[of i] by (auto simp: old_def[symmetric])
  qed
qed

lemma Reserve_Ret:
  assumes wf: "heap_ok h" and v: "valid h v"
    and r: "Reserve tr h v n = Ret (h', v') u"
  shows "size_m v' = size_m v" and "elems h' v' = elems h v"
    and "n * sizeof_T h < 2 ^ 64 \<Longrightarrow> valid h' v'" and "heap_ok h'"
    and "set (sched h') \<subseteq> set (sched h)" and "sizeof_T h' = sizeof_T h"
proof -
  have "size_m v' = size_m v \<and> elems h' v' = elems h v \<and>
        (n * sizeof_T h < 2 ^ 64 \<longrightarrow> valid h' v') \<and> heap_ok h' \<and>
        set (sched h') \<subseteq> set (sched h) \<and> sizeof_T h' = sizeof_T h"
  proof (cases "n \<le> capacity_m (data_m v)")
    case True
    with r wf v show ?thesis by (simp add: Reserve_def)
  next
    case False
    then have lt: "capacity_m (data_m v) < n" by simp
    note g = Reserve_grow[OF wf v lt r]
    define a where "a = next_addr h"
    have old_lt: "buffer_m (data_m v) < a" using valid_fresh[OF wf v] by (simp add: a_def)
    have a0: "0 < a" using wf by (simp add: heap_ok_def a_def)
    have sz: "size_m v \<le> capacity_m (data_m v)" using v by (simp add: valid_def)
    have "map (\<lambda>i. cells h' (a, i)) [0..<size_m v] =
          map (\<lambda>i. cells h (buffer_m (data_m v), i)) [0..<size_m v]"
      by (rule map_cong) (simp_all add: g(3)[folded a_def])
    then have 2: "elems h' v' = elems h v"
      using g(1,2) by (simp add: elems_def a_def)
    have 3: "valid h' v'" if fit: "n * sizeof_T h < 2 ^ 64"
      using g(1,2,7) g(3)[folded a_def] lt sz old_lt a0 valid_cells[OF v]
        room_eq[OF heap_ok_sizeof[OF wf] fit]
      by (auto simp: valid_def a_def[symmetric] nullptr_def)
    have 4: "heap_ok h'"
      using wf g(4,5,7,8) old_lt room_bytes[of h n]
      by (auto simp: heap_ok_def a_def[symmetric] nullptr_def)
    show ?thesis using g(2,6,8) 2 3 4 by simp
  qed
  then show "size_m v' = size_m v" and "elems h' v' = elems h v"
    and "n * sizeof_T h < 2 ^ 64 \<Longrightarrow> valid h' v'"
    and "heap_ok h'" and "set (sched h') \<subseteq> set (sched h)" and "sizeof_T h' = sizeof_T h"
    by blast+
qed


lemma wf_heap12: "wf_heap heap12"
  by (auto simp: wf_heap_def heap_ok_def heap12_def nullptr_def split: if_splits)

lemma valid_vec12: "valid heap12 vec12"
  by (auto simp: valid_def heap12_def vec12_def nullptr_def)



text \<open>
  Where the byte count wraps: with elements of 8 bytes \<open>Reserve(2\<^sup>6\<^sup>1)\<close> asks
  \<^verbatim>\<open>operator new\<close> for 0 bytes.  On the empty vector it returns with the capacity
  \<open>2\<^sup>6\<^sup>1\<close> and a block that has room for no element; on the vector \<open>[1, 2]\<close> the
  relocation writes past the block.
\<close>

lemma room_wrapped: "room heap0 (2 ^ 61) = 0" "room heap12 (2 ^ 61) = 0"
  by (simp_all add: room_def size_t_mul_eq heap0_def heap12_def)

lemma Reserve_wrapped_empty:
  "\<exists>h' v'. Reserve copying heap0 Vector_default (2 ^ 61) = Ret (h', v') () \<and>
     Size v' = 0 \<and> Capacity v' = 2 ^ 61 \<and> blocks h' (buffer_m (data_m v')) = Some 0 \<and>
     \<not> valid h' v'"
proof -
  have q: "quiet heap0" by (simp add: quiet_def heap0_def)
  from RawMemory_ctor_returns[OF q, of "2 ^ 61"] obtain h1 nd where
    c1: "RawMemory_ctor heap0 (2 ^ 61) = Ret h1 nd" by blast
  from RawMemory_ctor_Ret[OF c1] room_wrapped(1) have
    f: "capacity_m nd = 2 ^ 61" "buffer_m nd = next_addr heap0"
       "blocks h1 = (blocks heap0)(next_addr heap0 \<mapsto> 0)"
    by simp_all
  have a: "adopt h1 Vector_default nd = Ret (h1, Vector_default\<lparr>data_m := nd\<rparr>) ()"
    by (simp add: adopt_def Vector_default_def RawMemory_default_def GetAddress_def
        RawMemory_Swap_def RawMemory_dtor_def Deallocate_def operator_delete_def with_vec_def)
  have r: "Reserve copying heap0 Vector_default (2 ^ 61) =
        Ret (h1, Vector_default\<lparr>data_m := nd\<rparr>) ()"
    using c1 a by (simp add: Reserve_def Vector_default_def RawMemory_default_def)
  show ?thesis
    unfolding r using f
    by (auto simp: Size_def Capacity_def valid_def Vector_default_def)
qed

lemma Reserve_wrapped_overflow: "Reserve copying heap12 vec12 (2 ^ 61) = UB"
proof -
  have q: "quiet heap12" by (simp add: quiet_def heap12_def)
  from RawMemory_ctor_returns[OF q, of "2 ^ 61"] obtain h1 nd where
    c1: "RawMemory_ctor heap12 (2 ^ 61) = Ret h1 nd" by blast
  from RawMemory_ctor_Ret[OF c1] room_wrapped(2) have
    f: "buffer_m nd = next_addr heap12" "cells h1 = cells heap12"
       "blocks h1 = (blocks heap12)(next_addr heap12 \<mapsto> 0)"
    by simp_all
  have nb: "\<not> in_block h1 (GetAddress nd)"
    by (simp add: in_block_def GetAddress_def f)
  have "relocate_n copying h1 (GetAddress (data_m vec12)) (size_m vec12) (GetAddress nd) = UB"
    using nb
    by (simp add: relocate_n_def copying_def uninitialized_copy_n_def vec12_def
        copy_construct_def placement_new_def ptr_add_def GetAddress_def f heap12_def
        numeral_2_eq_2)
  with c1 show ?thesis
    by (simp add: Reserve_def vec12_def)
qed

subsection \<open>Appending\<close>

lemma Append_all_Ret:
  assumes "heap_ok h" and "valid h v" and "Append_all tr h v as = Ret (h', v') u"
  shows "size_m v' = size_m v + length as \<and>
         elems h' v' = elems h v @ map (\<lambda>a. Some (arg_value a)) as \<and>
         valid h' v' \<and> heap_ok h'"
  using assms
proof (induction as arbitrary: h v)
  case Nil
  then show ?case by simp
next
  case (Cons a as)
  from Cons.prems(3) obtain h1 v1 where
    s: "Append tr h v a = Ret (h1, v1) ()" and t: "Append_all tr h1 v1 as = Ret (h', v') u"
    by (auto split: res.splits)
  from Append_body obtain nt where "Append tr h v a = push_back_body nt tr h v (arg_value a)"
    by blast
  with s have p: "push_back_body nt tr h v (arg_value a) = Ret (h1, v1) ()" by simp
  note f = push_back_body_Ret[OF Cons.prems(1,2) p]
  from Cons.IH[OF f(4) f(3) t] f(1,2) show ?case by simp
qed

lemma push_back_in_capacity:
  assumes "size_m v < capacity_m (data_m v)"
    and "push_back_body nt tr h v x = Ret (h', v') u \<or> push_back_body nt tr h v x = Exc (h', v') e"
  shows "data_m v' = data_m v" and "evolves h h'" and "size_m v' \<le> Suc (size_m v)"
  using assms
  by (auto simp: push_back_body_def split: res.splits dest: placement_new_Ret placement_new_Exc)

lemma Append_all_in_capacity:
  assumes "size_m v + length as \<le> capacity_m (data_m v)"
    and "Append_all tr h v as = Ret (h', v') u \<or> Append_all tr h v as = Exc (h', v') e"
  shows "data_m v' = data_m v \<and> evolves h h'"
  using assms
proof (induction as arbitrary: h v)
  case Nil
  then show ?case by auto
next
  case (Cons a as)
  from Append_body obtain nt where b: "Append tr h v a = push_back_body nt tr h v (arg_value a)"
    by blast
  from Cons.prems(1) have lt: "size_m v < capacity_m (data_m v)" by simp
  show ?case
  proof (cases "Append tr h v a")
    case (Ret s1 u1)
    obtain h1 v1 where s1: "s1 = (h1, v1)" by (cases s1)
    from Ret b s1 have p: "push_back_body nt tr h v (arg_value a) = Ret (h1, v1) u1" by simp
    note f = push_back_in_capacity[OF lt disjI1, OF p]
    have "size_m v1 + length as \<le> capacity_m (data_m v1)"
      using f(1,3) Cons.prems(1) by simp
    moreover have "Append_all tr h1 v1 as = Ret (h', v') u \<or> Append_all tr h1 v1 as = Exc (h', v') e"
      using Cons.prems(2) Ret s1 by simp
    ultimately have "data_m v' = data_m v1 \<and> evolves h1 h'" by (rule Cons.IH)
    with f(1,2) show ?thesis by (auto elim: evolves_trans)
  next
    case (Exc s1 e1)
    with Cons.prems(2) have "s1 = (h', v')" by simp
    with Exc b have p: "push_back_body nt tr h v (arg_value a) = Exc (h', v') e1" by simp
    from push_back_in_capacity[OF lt disjI2, OF p] show ?thesis by simp
  next
    case UB
    with Cons.prems(2) show ?thesis by simp
  qed
qed

lemma wf_heap_reserved: "wf_heap heap_reserved"
  by (auto simp: wf_heap_def heap_ok_def heap_reserved_def nullptr_def split: if_splits)

lemma valid_vec_reserved: "valid heap_reserved vec_reserved"
  by (auto simp: valid_def heap_reserved_def vec_reserved_def nullptr_def)

lemma wf_heap0: "wf_heap heap0"
  by (auto simp: wf_heap_def heap_ok_def heap0_def nullptr_def split: if_splits)

lemma valid_default: "valid heap0 Vector_default"
  by (auto simp: valid_def heap0_def Vector_default_def RawMemory_default_def)

text \<open>
  C5.  Appending a sequence of values to an empty vector: whenever the calls return, the
  length is the number of calls and the element at each index is the value of the call of
  that index.  The calls return when nothing they call throws and the largest block they
  ask for, of at most twice the number of appended elements, has a byte count that does
  not wrap in \<^verbatim>\<open>size_t\<close>.
\<close>

theorem Append_all_contents:
  assumes "wf_heap h" and "valid h v" and "Size v = 0"
  shows "(quiet h \<and> 2 * length as * sizeof_T h < 2 ^ 64 \<longrightarrow>
            (\<exists>h' v'. Append_all tr h v as = Ret (h', v') ())) \<and>
         (Append_all tr h v as = Ret (h', v') u \<longrightarrow>
            Size v' = length as \<and>
            (\<forall>i < length as. cells h' (buffer_m (data_m v'), i) = Some (arg_value (as ! i))))"
proof -
  note ok = wf_heap_ok[OF assms(1)]
  have "Size v' = length as \<and>
        (\<forall>i < length as. cells h' (buffer_m (data_m v'), i) = Some (arg_value (as ! i)))"
    if r: "Append_all tr h v as = Ret (h', v') u"
  proof -
    from assms(3) have e: "elems h v = []" by (simp add: elems_def Size_def)
    from Append_all_Ret[OF ok assms(2) r] assms(3) e have
      s: "size_m v' = length as" and c: "elems h' v' = map (\<lambda>a. Some (arg_value a)) as"
      by (simp_all add: Size_def)
    have "cells h' (buffer_m (data_m v'), i) = Some (arg_value (as ! i))" if "i < length as" for i
    proof -
      have "elems h' v' ! i = cells h' (buffer_m (data_m v'), i)"
        using that s by (simp add: elems_nth)
      then show ?thesis using c that by simp
    qed
    with s show ?thesis by (simp add: Size_def)
  qed
  moreover have "\<exists>h' v'. Append_all tr h v as = Ret (h', v') ()"
    if q: "quiet h" and fit: "2 * length as * sizeof_T h < 2 ^ 64"
  proof -
    from fit assms(3) have "2 * (size_m v + length as) * sizeof_T h < 2 ^ 64"
      by (simp add: Size_def)
    from Append_all_returns[OF ok assms(2) q this] show ?thesis .
  qed
  ultimately show ?thesis by blast
qed

theorem Append_all_contents_witness:
  "wf_heap heap0 \<and> valid heap0 Vector_default \<and> Size Vector_default = 0 \<and> quiet heap0 \<and>
   2 * length [Lvalue 1, Rvalue 2, Lvalue (3::nat)] * sizeof_T heap0 < 2 ^ 64 \<and>
   (\<exists>h' v'. Append_all copying heap0 Vector_default [Lvalue 1, Rvalue 2, Lvalue 3] = Ret (h', v') () \<and>
      Size v' = 3 \<and>
      cells h' (buffer_m (data_m v'), 0) = Some 1 \<and>
      cells h' (buffer_m (data_m v'), 1) = Some 2 \<and>
      cells h' (buffer_m (data_m v'), 2) = Some 3)"
proof -
  have z: "Size Vector_default = 0" by code_simp
  have fit: "2 * length [Lvalue 1, Rvalue 2, Lvalue (3::nat)] * sizeof_T heap0 < 2 ^ 64"
    by (simp add: heap0_def)
  note t = Append_all_contents[OF wf_heap0 valid_default z,
      where tr = copying and as = "[Lvalue 1, Rvalue 2, Lvalue 3]"]
  from t[THEN conjunct1] quiet_heap0 fit obtain h' v' where
    e: "Append_all copying heap0 Vector_default [Lvalue 1, Rvalue 2, Lvalue 3] = Ret (h', v') ()"
    by blast
  note t2 = t[where h' = h' and v' = v' and u = "()", THEN conjunct2, THEN mp, OF e]
  from t2 have s: "Size v' = 3" by simp
  from t2 have c: "cells h' (buffer_m (data_m v'), i) =
        Some (arg_value ([Lvalue 1, Rvalue 2, Lvalue (3::nat)] ! i))"
    if "i < length [Lvalue 1, Rvalue 2, Lvalue (3::nat)]" for i
    using that by blast
  from c[of 0] c[of 1] c[of 2] s have "Size v' = 3 \<and>
      cells h' (buffer_m (data_m v'), 0) = Some 1 \<and>
      cells h' (buffer_m (data_m v'), 1) = Some 2 \<and>
      cells h' (buffer_m (data_m v'), 2) = Some 3"
    by simp
  with wf_heap0 valid_default z quiet_heap0 fit e show ?thesis by blast
qed

subsection \<open>Capacity\<close>

lemma Reserve_capacity:
  assumes "Reserve tr h v n = Ret (h1, v1) u"
  shows "capacity_m (data_m v1) = max n (capacity_m (data_m v))"
    and "size_m v1 = size_m v"
    and "allocs h1 = (if capacity_m (data_m v) < n then Suc (allocs h) else allocs h)"
proof -
  have "capacity_m (data_m v1) = max n (capacity_m (data_m v)) \<and> size_m v1 = size_m v \<and>
        allocs h1 = (if capacity_m (data_m v) < n then Suc (allocs h) else allocs h)"
  proof (cases "capacity_m (data_m v) < n")
    case True
    from Reserve_frame[OF True assms] True show ?thesis by simp
  next
    case False
    with assms show ?thesis by (simp add: Reserve_def)
  qed
  then show "capacity_m (data_m v1) = max n (capacity_m (data_m v))"
    and "size_m v1 = size_m v"
    and "allocs h1 = (if capacity_m (data_m v) < n then Suc (allocs h) else allocs h)"
    by blast+
qed

text \<open>
  C8, as the code has it.  After \<open>Reserve(n)\<close> has returned, a sequence of appends that
  keeps the length within \<open>n\<close> allocates nothing and leaves the storage block and the
  capacity as \<open>Reserve\<close> left them, whether the calls return or one of them throws.  That
  capacity is the larger of \<open>n\<close> and the capacity before \<open>Reserve\<close>; when \<open>Reserve\<close> had
  to grow the storage, the whole run made one allocation.  The appends return when nothing
  they call throws and the byte count \<^verbatim>\<open>n * sizeof(T)\<close> of \<open>Reserve\<close> did not wrap in
  \<^verbatim>\<open>size_t\<close>.
\<close>

theorem Reserve_then_Append_no_reallocation:
  assumes "Reserve tr h v n = Ret (h1, v1) u"
    and "Size v1 + length as \<le> n"
  shows "(wf_heap h \<and> valid h v \<and> quiet h \<and> n * sizeof_T h < 2 ^ 64 \<longrightarrow>
            (\<exists>h2 v2. Append_all tr h1 v1 as = Ret (h2, v2) ())) \<and>
         (Append_all tr h1 v1 as = Ret (h2, v2) u' \<or> Append_all tr h1 v1 as = Exc (h2, v2) e \<longrightarrow>
            allocs h2 = allocs h1 \<and> blocks h2 = blocks h1 \<and> data_m v2 = data_m v1 \<and>
            Capacity v2 = max n (Capacity v) \<and>
            (Capacity v < n \<longrightarrow> Capacity v2 = n \<and> allocs h2 = Suc (allocs h)))"
proof -
  note c = Reserve_capacity[OF assms(1)]
  have cap: "size_m v1 + length as \<le> capacity_m (data_m v1)"
    using assms(2) c(1) by (simp add: Size_def)
  have 0: "\<exists>h2 v2. Append_all tr h1 v1 as = Ret (h2, v2) ()"
    if w: "wf_heap h" "valid h v" "quiet h" "n * sizeof_T h < 2 ^ 64"
  proof -
    note r = Reserve_Ret[OF wf_heap_ok[OF w(1)] w(2) assms(1)]
    have "quiet h1" using w(3) r(5) by (rule quiet_mono)
    from Append_all_returns_in_capacity[OF r(3)[OF w(4)] this cap] show ?thesis .
  qed
  have 1: "allocs h2 = allocs h1 \<and> blocks h2 = blocks h1 \<and> data_m v2 = data_m v1 \<and>
           Capacity v2 = max n (Capacity v) \<and>
           (Capacity v < n \<longrightarrow> Capacity v2 = n \<and> allocs h2 = Suc (allocs h))"
    if a: "Append_all tr h1 v1 as = Ret (h2, v2) u' \<or> Append_all tr h1 v1 as = Exc (h2, v2) e"
  proof -
    from Append_all_in_capacity[OF cap a] have
      d: "data_m v2 = data_m v1" and ev: "evolves h1 h2"
      by simp_all
    from ev have "allocs h2 = allocs h1" "blocks h2 = blocks h1"
      by (simp_all add: evolves_def)
    with d c show ?thesis by (auto simp: Capacity_def)
  qed
  from 0 1 show ?thesis by blast
qed

theorem Reserve_then_Append_no_reallocation_witness:
  "wf_heap heap0 \<and> valid heap0 Vector_default \<and> quiet heap0 \<and> 10 * sizeof_T heap0 < 2 ^ 64 \<and>
   (\<exists>h1 v1 h2 v2.
     Reserve copying heap0 Vector_default 10 = Ret (h1, v1) () \<and>
     Size v1 + length (map Lvalue [1, 2, 3, 4, 5, 6, 7, 8, 9, 10 :: nat]) \<le> 10 \<and>
     Append_all copying h1 v1 (map Lvalue [1, 2, 3, 4, 5, 6, 7, 8, 9, 10]) = Ret (h2, v2) () \<and>
     allocs heap0 = 0 \<and> allocs h2 = 1 \<and> Capacity v2 = 10 \<and> Size v2 = 10)"
proof -
  have fit: "10 * sizeof_T heap0 < 2 ^ 64" by (simp add: heap0_def)
  have "case Reserve copying heap0 Vector_default 10 of Ret s u \<Rightarrow> True | _ \<Rightarrow> False"
    by code_simp
  then obtain h1 v1 where r: "Reserve copying heap0 Vector_default 10 = Ret (h1, v1) ()"
    by (auto split: res.splits)
  have "case Reserve copying heap0 Vector_default 10 of
          Ret (h1, v1) u \<Rightarrow> Size v1 = 0 | _ \<Rightarrow> False"
    by code_simp
  with r have s1: "Size v1 = 0" by simp
  then have l: "Size v1 + length (map Lvalue [1, 2, 3, 4, 5, 6, 7, 8, 9, 10 :: nat]) \<le> 10"
    by simp
  note t = Reserve_then_Append_no_reallocation[OF r l]
  note w = wf_heap0 valid_default quiet_heap0 fit
  from t[THEN conjunct1] w obtain h2 v2 where
    a: "Append_all copying h1 v1 (map Lvalue [1, 2, 3, 4, 5, 6, 7, 8, 9, 10]) = Ret (h2, v2) ()"
    by blast
  have "case Reserve copying heap0 Vector_default 10 of
          Ret (h1, v1) u \<Rightarrow>
            (case Append_all copying h1 v1 (map Lvalue [1, 2, 3, 4, 5, 6, 7, 8, 9, 10]) of
               Ret (h2, v2) u' \<Rightarrow> Size v2 = 10
             | _ \<Rightarrow> False)
        | _ \<Rightarrow> False"
    by code_simp
  with r a have s2: "Size v2 = 10" by simp
  have z: "allocs heap0 = 0" "Capacity Vector_default = 0" by code_simp+
  from t[THEN conjunct2, THEN mp, OF disjI1, OF a] z
  have "allocs h2 = 1 \<and> Capacity v2 = 10" by simp
  with w r a l s2 z show ?thesis by blast
qed

text \<open>
  The claim as written fails where \<open>n\<close> is below the capacity the vector already has:
  \<open>Reserve(2)\<close> on an empty vector of capacity 4 changes nothing, and after one append
  (length 1, within 2) the capacity is 4, not 2.
\<close>

theorem Reserve_capacity_not_n_counterexample:
  "wf_heap heap_reserved \<and> valid heap_reserved vec_reserved \<and>
   (\<exists>h1 v1 h2 v2.
      Reserve copying heap_reserved vec_reserved 2 = Ret (h1, v1) () \<and>
      Size v1 + length [Lvalue (7::nat)] \<le> 2 \<and>
      Append_all copying h1 v1 [Lvalue 7] = Ret (h2, v2) () \<and>
      Capacity v2 = 4 \<and> Capacity v2 \<noteq> 2)"
proof -
  have "case Reserve copying heap_reserved vec_reserved 2 of Ret s u \<Rightarrow> True | _ \<Rightarrow> False"
    by code_simp
  then obtain h1 v1 where r: "Reserve copying heap_reserved vec_reserved 2 = Ret (h1, v1) ()"
    by (auto split: res.splits)
  have "case Reserve copying heap_reserved vec_reserved 2 of
          Ret (h1, v1) u \<Rightarrow>
            (case Append_all copying h1 v1 [Lvalue 7] of
               Ret (h2, v2) u' \<Rightarrow> Size v1 + length [Lvalue (7::nat)] \<le> 2 \<and> Capacity v2 = 4
             | _ \<Rightarrow> False)
        | _ \<Rightarrow> False"
    by code_simp
  with r obtain h2 v2 where
    a: "Append_all copying h1 v1 [Lvalue 7] = Ret (h2, v2) ()" and
    s: "Size v1 + length [Lvalue (7::nat)] \<le> 2" "Capacity v2 = 4"
    by (auto split: res.splits)
  from s(2) have "Capacity v2 \<noteq> 2" by simp
  with wf_heap_reserved valid_vec_reserved r a s show ?thesis by blast
qed

lemma push_back_body_capacity:
  assumes "size_m v = capacity_m (data_m v)" and "push_back_body nt tr h v x = Ret (h', v') u"
  shows "capacity_m (data_m v') = (if size_m v = 0 then 1 else 2 * size_m v)"
proof -
  define n where "n = (if size_m v = 0 then 1 else 2 * size_m v)"
  from assms obtain h1 nd h3 v1 where
    c1: "RawMemory_ctor h n = Ret h1 nd" and
    c5: "adopt h3 v nd = Ret (h', v1) ()" and
    e: "v' = v1\<lparr>size_m := size_m v1 + 1\<rparr>"
    unfolding push_back_body_def n_def[symmetric]
    by (auto split: res.splits prod.splits)
  from RawMemory_ctor_Ret[OF c1] adopt_Ret_pt(1)[OF c5] e show ?thesis
    by (simp add: n_def)
qed

lemma Emplace_bad_pos:
  "fst pos \<noteq> buffer_m (data_m v) \<or> snd pos > size_m v \<Longrightarrow> Emplace nt tr h v pos x = UB"
  by (simp add: Emplace_def)

lemma Emplace_pos:
  assumes "Emplace nt tr h v pos x = Ret s it \<or> Emplace nt tr h v pos x = Exc s e"
  shows "fst pos = buffer_m (data_m v)" and "snd pos \<le> size_m v"
proof -
  have "False" if "fst pos \<noteq> buffer_m (data_m v) \<or> snd pos > size_m v"
  proof -
    from that have "Emplace nt tr h v pos x = UB" by (rule Emplace_bad_pos)
    with assms show False by auto
  qed
  then show "fst pos = buffer_m (data_m v)" and "snd pos \<le> size_m v"
    by (blast, meson not_le)
qed

lemma Emplace_realloc_eq:
  assumes "fst pos = buffer_m (data_m v)" and "snd pos \<le> size_m v" and "pos \<noteq> cend v"
    and "\<not> size_m v < capacity_m (data_m v)"
  shows "Emplace nt tr h v pos x =
        (case RawMemory_ctor h (if size_m v = 0 then 1 else 2 * size_m v) of
           Exc h1 e \<Rightarrow> Exc (h1, v) e
         | UB \<Rightarrow> UB
         | Ret h1 new_data \<Rightarrow>
             (case placement_new nt h1 (RawMemory_plus new_data (snd pos)) x of
                Exc h2 e \<Rightarrow> with_vec v (rethrow_after (RawMemory_dtor h2 new_data) e)
              | UB \<Rightarrow> UB
              | Ret h2 _ \<Rightarrow>
                  (case relocate_n tr h2 (GetAddress (data_m v)) (snd pos) (GetAddress new_data) of
                     Exc h3 e \<Rightarrow> with_vec v (rethrow_after (RawMemory_dtor h3 new_data) e)
                   | UB \<Rightarrow> UB
                   | Ret h3 _ \<Rightarrow>
                       (case relocate_n tr h3 (ptr_add (GetAddress (data_m v)) (snd pos))
                               (size_m v - snd pos)
                               (ptr_add (ptr_add (GetAddress new_data) (snd pos)) 1) of
                          Exc h4 e \<Rightarrow>
                            (case destroy_n h4 (GetAddress new_data) (snd pos) of
                               Ret h5 _ \<Rightarrow> with_vec v (rethrow_after (RawMemory_dtor h5 new_data) e)
                             | Exc h5 e' \<Rightarrow> Exc (h5, v) e'
                             | UB \<Rightarrow> UB)
                        | UB \<Rightarrow> UB
                        | Ret h4 _ \<Rightarrow>
                            (case adopt h4 v new_data of
                               Ret (h5, v1) _ \<Rightarrow>
                                 Ret (h5, v1\<lparr>size_m := size_m v1 + 1\<rparr>)
                                     (RawMemory_plus (data_m v1) (snd pos))
                             | Exc s e \<Rightarrow> Exc s e
                             | UB \<Rightarrow> UB)))))"
  unfolding Emplace_def using assms by (simp only: if_False if_True simp_thms not_less[symmetric])

lemma Emplace_realloc_Ret:
  assumes ne: "pos \<noteq> cend v" and full: "\<not> size_m v < capacity_m (data_m v)"
    and r: "Emplace nt tr h v pos x = Ret (h', v') it"
  shows "\<exists>h1 nd h2 h3 h4 v1.
           RawMemory_ctor h (if size_m v = 0 then 1 else 2 * size_m v) = Ret h1 nd \<and>
           placement_new nt h1 (RawMemory_plus nd (snd pos)) x = Ret h2 () \<and>
           relocate_n tr h2 (GetAddress (data_m v)) (snd pos) (GetAddress nd) = Ret h3 () \<and>
           relocate_n tr h3 (ptr_add (GetAddress (data_m v)) (snd pos)) (size_m v - snd pos)
             (ptr_add (ptr_add (GetAddress nd) (snd pos)) 1) = Ret h4 () \<and>
           adopt h4 v nd = Ret (h', v1) () \<and>
           v' = v1\<lparr>size_m := size_m v1 + 1\<rparr> \<and>
           it = RawMemory_plus (data_m v1) (snd pos)"
proof -
  note p = Emplace_pos[OF disjI1, OF r]
  note eq = Emplace_realloc_eq[OF p ne full, of nt tr h x]
  let ?n = "if size_m v = 0 then 1 else 2 * size_m v"
  show ?thesis
  proof (cases "RawMemory_ctor h ?n")
    case (Ret h1 nd)
    note c1 = this
    show ?thesis
    proof (cases "placement_new nt h1 (RawMemory_plus nd (snd pos)) x")
      case (Ret h2 u2)
      note c2 = this
      show ?thesis
      proof (cases "relocate_n tr h2 (GetAddress (data_m v)) (snd pos) (GetAddress nd)")
        case (Ret h3 u3)
        note c3 = this
        show ?thesis
        proof (cases "relocate_n tr h3 (ptr_add (GetAddress (data_m v)) (snd pos))
                        (size_m v - snd pos) (ptr_add (ptr_add (GetAddress nd) (snd pos)) 1)")
          case (Ret h4 u4)
          note c4 = this
          show ?thesis
          proof (cases "adopt h4 v nd")
            case (Ret s5 u5)
            obtain h5 v1 where s5: "s5 = (h5, v1)" by (cases s5)
            from r have "h5 = h'" "v' = v1\<lparr>size_m := size_m v1 + 1\<rparr>"
              "it = RawMemory_plus (data_m v1) (snd pos)"
              unfolding eq c1 c2 c3 c4 Ret s5 res.case prod.case by simp_all
            moreover have "u2 = ()" "u3 = ()" "u4 = ()" "u5 = ()" by simp_all
            ultimately show ?thesis
              using c1 c2 c3 c4 Ret s5 by blast
          next
            case (Exc s5 e5)
            with r show ?thesis unfolding eq c1 c2 c3 c4 res.case by simp
          next
            case UB
            with r show ?thesis unfolding eq c1 c2 c3 c4 res.case by simp
          qed
        next
          case (Exc h4 e4)
          with r show ?thesis unfolding eq c1 c2 c3 res.case
            by (simp split: res.splits)
        next
          case UB
          with r show ?thesis unfolding eq c1 c2 c3 res.case by simp
        qed
      next
        case (Exc h3 e3)
        with r show ?thesis unfolding eq c1 c2 res.case by simp
      next
        case UB
        with r show ?thesis unfolding eq c1 c2 res.case by simp
      qed
    next
      case (Exc h2 e2)
      with r show ?thesis unfolding eq c1 res.case by simp
    next
      case UB
      with r show ?thesis unfolding eq c1 res.case by simp
    qed
  next
    case (Exc h1 e1)
    with r show ?thesis unfolding eq by simp
  next
    case UB
    with r show ?thesis unfolding eq by simp
  qed
qed

lemma Emplace_capacity:
  assumes "size_m v = capacity_m (data_m v)" and "pos \<noteq> cend v"
    and "Emplace nt tr h v pos x = Ret (h', v') it"
  shows "capacity_m (data_m v') = (if size_m v = 0 then 1 else 2 * size_m v)"
proof -
  from assms(1) have full: "\<not> size_m v < capacity_m (data_m v)" by simp
  from Emplace_realloc_Ret[OF assms(2) full assms(3)] obtain h1 nd h4 v1 where
    c1: "RawMemory_ctor h (if size_m v = 0 then 1 else 2 * size_m v) = Ret h1 nd" and
    c5: "adopt h4 v nd = Ret (h', v1) ()" and
    e: "v' = v1\<lparr>size_m := size_m v1 + 1\<rparr>"
    by blast
  from RawMemory_ctor_Ret[OF c1] adopt_Ret_pt(1)[OF c5] e show ?thesis
    by simp
qed

subsection \<open>Operations that stay in the block\<close>

lemma PopBack_storage:
  assumes "PopBack h v = Ret (h', v') u \<or> PopBack h v = Exc (h', v') e"
  shows "data_m v' = data_m v \<and> evolves h h'"
  using assms
  by (auto simp: PopBack_def with_vec_def split: if_splits res.splits dest: destroy_at_Ret)

lemma Erase_storage:
  assumes "Erase tr h v pos = Ret (h', v') it \<or> Erase tr h v pos = Exc (h', v') e"
  shows "data_m v' = data_m v \<and> evolves h h'"
proof (cases "std_move tr h (ptr_add (RawMemory_plus (data_m v) (snd pos)) 1)
                (RawMemory_plus (data_m v) (size_m v))
                (RawMemory_plus (data_m v) (snd pos))")
  case (Ret h1 u1)
  then have ev: "evolves h h1"
    by (auto simp: std_move_def split: if_splits dest: move_loop_evolves[OF disjI1])
  from assms Ret obtain u2 where
    d: "destroy_at h1 (ptr_sub (RawMemory_plus (data_m v) (size_m v)) 1) = Ret h' u2"
    and v': "v' = v\<lparr>size_m := size_m v - 1\<rparr>"
    by (auto simp: Erase_def split: if_splits res.splits)
  from destroy_at_Ret[OF d] have "evolves h1 h'" by simp
  with ev v' show ?thesis by (auto elim: evolves_trans)
next
  case (Exc h1 e1)
  then have ev: "evolves h h1"
    by (auto simp: std_move_def split: if_splits dest: move_loop_evolves[OF disjI2])
  from assms Exc have "h' = h1" "v' = v"
    by (auto simp: Erase_def split: if_splits)
  with ev show ?thesis by simp
next
  case UB
  with assms show ?thesis by (auto simp: Erase_def split: if_splits)
qed

lemma uninitialized_value_construct_n_zero [simp]:
  "uninitialized_value_construct_n tr h first 0 = Ret h ()"
  by (simp add: uninitialized_value_construct_n_def)

lemma Resize_storage:
  assumes "size_m v \<le> capacity_m (data_m v)" and "new_size \<le> size_m v"
    and "Resize tr h v new_size = Ret (h', v') u \<or> Resize tr h v new_size = Exc (h', v') e"
  shows "data_m v' = data_m v \<and> evolves h h'"
proof (cases "new_size < size_m v")
  case True
  with assms(3) show ?thesis
    by (auto simp: Resize_def split: res.splits dest: destroy_n_evolves)
next
  case False
  with assms(2) have eq: "new_size = size_m v" by simp
  with assms(1) have "Reserve tr h v new_size = Ret (h, v) ()" by (simp add: Reserve_noop)
  with assms(3) eq show ?thesis
    by (auto simp: Resize_def)
qed

lemma Vector_copy_assign_storage:
  assumes "size_m rhs \<le> capacity_m (data_m v)"
    and "Vector_copy_assign h v (Other rhs) = Ret (h', v') u \<or>
         Vector_copy_assign h v (Other rhs) = Exc (h', v') e"
  shows "data_m v' = data_m v \<and> evolves h h'"
proof -
  let ?m = "min (size_m rhs) (size_m v)"
  from assms(1) have le: "\<not> size_m rhs > capacity_m (data_m v)" by simp
  show ?thesis
  proof (cases "assign_loop h (data_m rhs) (data_m v) 0 ?m")
    case (Ret h1 u1)
    then have ev: "evolves h h1" by (auto dest: assign_loop_evolves[OF disjI1])
    show ?thesis
    proof (cases "size_m rhs < size_m v")
      case True
      with assms(2) le Ret have "data_m v' = data_m v \<and> evolves h1 h'"
        by (auto simp: Vector_copy_assign_def split: res.splits dest: destroy_n_evolves)
      with ev show ?thesis by (auto elim: evolves_trans)
    next
      case False
      with assms(2) le Ret have "data_m v' = data_m v \<and> evolves h1 h'"
        by (auto simp: Vector_copy_assign_def uninitialized_copy_n_def split: res.splits
                 dest: uninitialized_copy_loop_evolves[OF disjI1]
                       uninitialized_copy_loop_evolves[OF disjI2])
      with ev show ?thesis by (auto elim: evolves_trans)
    qed
  next
    case (Exc h1 e1)
    then have ev: "evolves h h1" by (auto dest: assign_loop_evolves[OF disjI2])
    from assms(2) le Exc have "h' = h1" "v' = v"
      by (auto simp: Vector_copy_assign_def)
    with ev show ?thesis by simp
  next
    case UB
    with assms(2) le show ?thesis by (auto simp: Vector_copy_assign_def)
  qed
qed

subsection \<open>What the appending calls return\<close>

text \<open>
  C3, as the code has it.  \<^verbatim>\<open>EmplaceBack\<close> returns a reference to the element at index
  length - 1 after the call, which holds the value just constructed.  Both overloads of
  \<^verbatim>\<open>PushBack\<close> are declared \<^verbatim>\<open>void\<close>: a call of them returns nothing.  The three calls
  return when nothing they call throws (on a heap whose blocks are smaller than \<open>2\<^sup>6\<^sup>3\<close>
  bytes the byte count they ask for does not wrap).
\<close>

theorem EmplaceBack_returns_last:
  assumes "wf_heap h" and "valid h v"
  shows "(quiet h \<longrightarrow>
            (\<exists>h' v' r. EmplaceBack_call nt tr h v x = Ret (h', v') r) \<and>
            (\<exists>h' v' r. PushBack_call tr h v x = Ret (h', v') r) \<and>
            (\<exists>h' v' r. PushBack_move_call tr h v x = Ret (h', v') r)) \<and>
         (EmplaceBack_call nt tr h v x = Ret (h', v') r \<longrightarrow>
            r = Reference (buffer_m (data_m v'), Size v' - 1) \<and>
            Size v' = Size v + 1 \<and>
            cells h' (buffer_m (data_m v'), Size v' - 1) = Some x) \<and>
         (PushBack_call tr h v x = Ret (h', v') r \<longrightarrow> r = Void) \<and>
         (PushBack_move_call tr h v x = Ret (h', v') r \<longrightarrow> r = Void)"
proof -
  have 0: "(\<exists>h' v' r. EmplaceBack_call nt tr h v x = Ret (h', v') r) \<and>
           (\<exists>h' v' r. PushBack_call tr h v x = Ret (h', v') r) \<and>
           (\<exists>h' v' r. PushBack_move_call tr h v x = Ret (h', v') r)"
    if q: "quiet h"
  proof -
    note pb = push_back_body_returns[OF wf_heap_ok[OF assms(1)] assms(2) q wf_heap_fit[OF assms]]
    from pb[of nt tr x] have "\<exists>h' v' r. EmplaceBack_call nt tr h v x = Ret (h', v') r"
      by (auto simp: EmplaceBack_call_def EmplaceBack_def)
    moreover from pb[of False tr x] have "\<exists>h' v' r. PushBack_call tr h v x = Ret (h', v') r"
      by (auto simp: PushBack_call_def PushBack_def)
    moreover from pb[of "nothrow_move_constructible tr" tr x]
    have "\<exists>h' v' r. PushBack_move_call tr h v x = Ret (h', v') r"
      by (auto simp: PushBack_move_call_def PushBack_move_def)
    ultimately show ?thesis by blast
  qed
  have 1: "r = Reference (buffer_m (data_m v'), Size v' - 1) \<and> Size v' = Size v + 1 \<and>
           cells h' (buffer_m (data_m v'), Size v' - 1) = Some x"
    if e: "EmplaceBack_call nt tr h v x = Ret (h', v') r"
  proof -
    from e obtain u where p: "push_back_body nt tr h v x = Ret (h', v') u"
      and r: "r = Reference (ptr_sub (RawMemory_plus (data_m v') (size_m v')) 1)"
      by (auto simp: EmplaceBack_call_def EmplaceBack_def split: res.splits)
    note f = push_back_body_Ret[OF wf_heap_ok[OF assms(1)] assms(2) p]
    have "elems h' v' ! size_m v = cells h' (buffer_m (data_m v'), size_m v)"
      using f(1) by (simp add: elems_nth)
    then have "cells h' (buffer_m (data_m v'), size_m v) = Some x"
      using f(2) by (simp add: nth_append)
    with r f(1) show ?thesis
      by (simp add: Size_def ptr_sub_def RawMemory_plus_def)
  qed
  have 2: "r = Void" if "PushBack_call tr h v x = Ret (h', v') r"
    using that by (auto simp: PushBack_call_def split: res.splits)
  have 3: "r = Void" if "PushBack_move_call tr h v x = Ret (h', v') r"
    using that by (auto simp: PushBack_move_call_def split: res.splits)
  from 0 1 2 3 show ?thesis by blast
qed

theorem EmplaceBack_returns_last_witness:
  "wf_heap heap12 \<and> valid heap12 vec12 \<and> quiet heap12 \<and>
   (\<exists>h' v' r. EmplaceBack_call False copying heap12 vec12 5 = Ret (h', v') r \<and>
      r = Reference (buffer_m (data_m v'), 2) \<and> Size v' = 3 \<and>
      cells h' (buffer_m (data_m v'), 2) = Some 5) \<and>
   (\<exists>h' v'. PushBack_call copying heap12 vec12 5 = Ret (h', v') Void) \<and>
   (\<exists>h' v'. PushBack_move_call copying heap12 vec12 5 = Ret (h', v') Void)"
proof -
  note t = EmplaceBack_returns_last[OF wf_heap12 valid_vec12,
      where nt = False and tr = copying and x = 5]
  from t[THEN conjunct1] quiet_heap12 obtain h' v' r where
    e: "EmplaceBack_call False copying heap12 vec12 5 = Ret (h', v') r"
    by blast
  from t[THEN conjunct1] quiet_heap12 obtain h2 v2 r2 where
    p: "PushBack_call copying heap12 vec12 5 = Ret (h2, v2) r2"
    by blast
  from t[THEN conjunct1] quiet_heap12 obtain h3 v3 r3 where
    m: "PushBack_move_call copying heap12 vec12 5 = Ret (h3, v3) r3"
    by blast
  have s: "Size vec12 = 2" by code_simp
  from t[where h' = h' and v' = v' and r = r, THEN conjunct2] e
  have u: "r = Reference (buffer_m (data_m v'), Size v' - 1)" "Size v' = Size vec12 + 1"
      "cells h' (buffer_m (data_m v'), Size v' - 1) = Some 5"
    by blast+
  from t[where h' = h2 and v' = v2 and r = r2, THEN conjunct2] p have v: "r2 = Void"
    by blast
  from t[where h' = h3 and v' = v3 and r = r3, THEN conjunct2] m have v3: "r3 = Void"
    by blast
  from u(2) s have "Size v' = 3" by simp
  with u have "r = Reference (buffer_m (data_m v'), 2) \<and> Size v' = 3 \<and>
      cells h' (buffer_m (data_m v'), 2) = Some 5"
    by simp
  with wf_heap12 valid_vec12 quiet_heap12 e p v m v3 show ?thesis by blast
qed

text \<open>
  The claim as written fails for \<^verbatim>\<open>PushBack\<close>: appending 5 to the vector \<open>[1, 2]\<close> returns
  nothing, not a reference to the new element at index 2.
\<close>

theorem PushBack_returns_nothing_counterexample:
  "\<exists>h' v'. PushBack_call copying heap12 vec12 5 = Ret (h', v') Void \<and>
     Size v' = 3 \<and> Void \<noteq> Reference (buffer_m (data_m v'), Size v' - 1)"
proof -
  have "case PushBack_call copying heap12 vec12 5 of
          Ret (h', v') r \<Rightarrow> r = Void \<and> Size v' = 3 | _ \<Rightarrow> False"
    by code_simp
  then show ?thesis by (auto split: res.splits)
qed

subsection \<open>Move assignment\<close>

lemma wf_heap_ab: "wf_heap heap_ab"
  by (auto simp: wf_heap_def heap_ok_def heap_ab_def nullptr_def split: if_splits)

lemma valid_vec_a: "valid heap_ab vec_a"
  by (auto simp: valid_def heap_ab_def vec_a_def nullptr_def)

lemma valid_vec_b: "valid heap_ab vec_b"
  by (auto simp: valid_def heap_ab_def vec_b_def nullptr_def)

lemma Vector_move_assign_heap: "Vector_move_assign h v r = (h', v', r') \<Longrightarrow> h' = h"
  by (auto simp: Vector_move_assign_def RawMemory_move_assign_def split: operand.splits)

text \<open>
  C2.  The code does not release what the target of a move assignment owned.  The vector
  \<open>a = [7]\<close> (block 1) is move-assigned from \<open>b = [9]\<close> (block 2): the heap is unchanged, so
  block 1 stays allocated and its element alive while no vector refers to them any more;
  they are still there after the destructors of both vectors have run.
\<close>

theorem move_assign_leaks_target:
  "\<exists>h1 a1 b1 h2 h3.
     Vector_move_assign heap_ab vec_a (Other vec_b) = (h1, a1, Other b1) \<and>
     buffer_m (data_m vec_a) = 1 \<and> buffer_m (data_m a1) = 2 \<and> buffer_m (data_m b1) = nullptr \<and>
     blocks h1 1 = Some 1 \<and> cells h1 (1, 0) = Some 7 \<and>
     Vector_dtor h1 a1 = Ret h2 () \<and> Vector_dtor h2 b1 = Ret h3 () \<and>
     blocks h3 1 = Some 1 \<and> cells h3 (1, 0) = Some 7 \<and> blocks h3 2 = None"
proof -
  have "case Vector_move_assign heap_ab vec_a (Other vec_b) of
          (h1, a1, Other b1) \<Rightarrow>
            buffer_m (data_m vec_a) = 1 \<and> buffer_m (data_m a1) = 2 \<and>
            buffer_m (data_m b1) = nullptr \<and>
            blocks h1 1 = Some 1 \<and> cells h1 (1, 0) = Some 7 \<and>
            (case Vector_dtor h1 a1 of
               Ret h2 u \<Rightarrow>
                 (case Vector_dtor h2 b1 of
                    Ret h3 u' \<Rightarrow> blocks h3 1 = Some 1 \<and> cells h3 (1, 0) = Some 7 \<and> blocks h3 2 = None
                  | _ \<Rightarrow> False)
             | _ \<Rightarrow> False)
        | _ \<Rightarrow> False"
    by code_simp
  then show ?thesis
    by (auto split: prod.splits operand.splits res.splits)
qed

subsection \<open>Copy construction and copy assignment\<close>

lemma Vector_dtor_Exc [simp]: "Vector_dtor h v \<noteq> Exc h' e"
  by (auto simp: Vector_dtor_def split: res.splits)

lemma Vector_copy_Exc:
  assumes wf: "heap_ok h" and r: "Vector_copy h other = Exc h' e"
  shows "blocks h' = blocks h" and "cells h' = cells h" and "e = Bad_alloc \<or> e = Ctor_throw"
proof -
  have "blocks h' = blocks h \<and> cells h' = cells h \<and> (e = Bad_alloc \<or> e = Ctor_throw)"
  proof (cases "RawMemory_ctor h (size_m other)")
    case (Exc h1 e1)
    with r have "h' = h1" "e = e1" by (simp_all add: Vector_copy_def)
    with RawMemory_ctor_Exc[OF Exc] show ?thesis by (simp add: evolves_def)
  next
    case UB
    with r show ?thesis by (simp add: Vector_copy_def)
  next
    case (Ret h1 d)
    note c1 = this
    show ?thesis
    proof (cases "uninitialized_copy_n h1 (GetAddress (data_m other)) (size_m other) (GetAddress d)")
      case (Exc h2 e2)
      with r c1 have
        x: "rethrow_after (RawMemory_dtor h2 d) e2 = (Exc h' e :: ('a heap, vector) res)"
        by (simp add: Vector_copy_def)
      then obtain u where dt: "RawMemory_dtor h2 d = Ret h' u" and e: "e = e2"
        by (auto dest!: rethrow_after_Exc)
      from Exc have l: "uninitialized_copy_loop h1 (GetAddress (data_m other)) (size_m other)
                          (GetAddress d) 0 = Exc h2 e2"
        by (simp add: uninitialized_copy_n_def)
      from uninitialized_copy_loop_Exc[OF l] have
        q: "e2 = Ctor_throw" "cells h2 = cells h1"
        by (auto simp: in_range_def fun_eq_iff)
      have ev: "evolves h1 h2" using uninitialized_copy_loop_evolves[OF disjI2, OF l] .
      have n0: "size_m other \<noteq> 0"
      proof
        assume "size_m other = 0"
        with Exc show False by (simp add: uninitialized_copy_n_def)
      qed
      from RawMemory_ctor_Ret[OF c1] have c: "cells h1 = cells h" by simp
      note f = fresh_block_freed[OF wf n0 c1 ev dt]
      show ?thesis using f e q c by simp
    next
      case UB
      with r c1 show ?thesis by (simp add: Vector_copy_def)
    next
      case (Ret h2 u2)
      with r c1 show ?thesis by (simp add: Vector_copy_def)
    qed
  qed
  then show "blocks h' = blocks h" and "cells h' = cells h" and "e = Bad_alloc \<or> e = Ctor_throw"
    by blast+
qed

lemma Vector_copy_assign_grow_Exc:
  assumes "size_m rhs > capacity_m (data_m v)"
    and "Vector_copy_assign h v (Other rhs) = Exc (h', v') e"
  shows "Vector_copy h rhs = Exc h' e" and "v' = v"
proof -
  have "Vector_copy h rhs = Exc h' e \<and> v' = v"
  proof (cases "Vector_copy h rhs")
    case (Ret h1 rhs_copy)
    with assms show ?thesis
      by (auto simp: Vector_copy_assign_def Vector_Swap_def RawMemory_Swap_def
               dest!: with_vec_Exc)
  next
    case (Exc h1 e1)
    with assms show ?thesis by (simp add: Vector_copy_assign_def)
  next
    case UB
    with assms show ?thesis by (simp add: Vector_copy_assign_def)
  qed
  then show "Vector_copy h rhs = Exc h' e" and "v' = v" by blast+
qed

lemma wf_heap_st: "wf_heap heap_st"
  by (auto simp: wf_heap_def heap_ok_def heap_st_def nullptr_def split: if_splits)

text \<open>
  C4.  Copy assignment from a source longer than the capacity of the target: when it
  throws, the target object (length, capacity, block) is as before, and so are all cells
  and the allocation table, hence the element values.
\<close>

theorem copy_assign_strong_guarantee:
  assumes "wf_heap h" and "Size rhs > Capacity v"
    and "Vector_copy_assign h v (Other rhs) = Exc (h', v') e"
  shows "v' = v \<and> Size v' = Size v \<and> Capacity v' = Capacity v \<and> elems h' v' = elems h v \<and>
         cells h' = cells h \<and> blocks h' = blocks h"
proof -
  from assms(2) have g: "size_m rhs > capacity_m (data_m v)" by (simp add: Size_def Capacity_def)
  note a = Vector_copy_assign_grow_Exc[OF g assms(3)]
  note c = Vector_copy_Exc[OF wf_heap_ok[OF assms(1)] a(1)]
  from a(2) c show ?thesis by (simp add: elems_def)
qed

theorem copy_assign_strong_guarantee_witness:
  "wf_heap heap_st \<and> Size vec12 > Capacity vec_a \<and>
   (\<exists>h' v'. Vector_copy_assign heap_st vec_a (Other vec12) = Exc (h', v') Ctor_throw \<and>
      v' = vec_a \<and> elems heap_st vec_a = [Some 7] \<and> elems h' v' = [Some 7] \<and>
      cells h' = cells heap_st \<and> blocks h' = blocks heap_st)"
proof -
  have g: "Size vec12 > Capacity vec_a" by code_simp
  have "case Vector_copy_assign heap_st vec_a (Other vec12) of
          Exc s e \<Rightarrow> e = Ctor_throw | _ \<Rightarrow> False"
    by code_simp
  then obtain h' v' where
    e: "Vector_copy_assign heap_st vec_a (Other vec12) = Exc (h', v') Ctor_throw"
    by (auto split: res.splits)
  have l: "elems heap_st vec_a = [Some 7]" by code_simp
  from copy_assign_strong_guarantee[OF wf_heap_st g e] l
  have "v' = vec_a \<and> elems h' v' = [Some 7] \<and> cells h' = cells heap_st \<and>
        blocks h' = blocks heap_st"
    by metis
  with wf_heap_st g e l show ?thesis by blast
qed

subsection \<open>Emplace that throws\<close>







lemma Emplace_end_eq:
  assumes "fst pos = buffer_m (data_m v)" and "snd pos \<le> size_m v" and "pos = cend v"
  shows "Emplace nt tr h v pos x =
        (case EmplaceBack nt tr h v x of
           Ret (h1, v1) _ \<Rightarrow> Ret (h1, v1) (RawMemory_plus (data_m v1) (snd pos))
         | Exc s e \<Rightarrow> Exc s e
         | UB \<Rightarrow> UB)"
  unfolding Emplace_def using assms by (simp only: if_False if_True simp_thms not_less[symmetric])

lemma Emplace_in_place_eq:
  assumes "fst pos = buffer_m (data_m v)" and "snd pos \<le> size_m v" and "pos \<noteq> cend v"
    and "size_m v < capacity_m (data_m v)"
  shows "Emplace nt tr h v pos x =
        (case (if nt then (False, h) else tick h) of (b, h1) \<Rightarrow>
           if b then Exc (h1, v) Ctor_throw
           else
             (case uninitialized_move tr h1
                     (ptr_sub (RawMemory_plus (data_m v) (size_m v)) 1)
                     (RawMemory_plus (data_m v) (size_m v))
                     (RawMemory_plus (data_m v) (size_m v)) of
                Exc h2 e \<Rightarrow> Exc (h2, v) e
              | UB \<Rightarrow> UB
              | Ret h2 _ \<Rightarrow>
                  (case move_backward tr h2
                          (RawMemory_plus (data_m v) (snd pos))
                          (ptr_sub (RawMemory_plus (data_m v) (size_m v)) 1)
                          (RawMemory_plus (data_m v) (size_m v)) of
                     Exc h3 e \<Rightarrow> Exc (h3, v) e
                   | UB \<Rightarrow> UB
                   | Ret h3 _ \<Rightarrow>
                       (case assign_value h3 (RawMemory_plus (data_m v) (snd pos)) x of
                          Exc h4 e \<Rightarrow> Exc (h4, v) e
                        | UB \<Rightarrow> UB
                        | Ret h4 _ \<Rightarrow>
                            Ret (h4, v\<lparr>size_m := size_m v + 1\<rparr>)
                                (RawMemory_plus (data_m v) (snd pos))))))"
  unfolding Emplace_def using assms by (simp only: if_False if_True simp_thms not_less[symmetric])

lemma ctor_tick:
  assumes "(if nt then (False, h) else tick h) = (b, h1)"
  shows "cells h1 = cells h" and "evolves h h1"
  using assms by (auto split: if_splits dest: tick_elim)














text \<open>
  When the relocation of a growth site throws, the element that was built first in the new
  block is not destroyed before the block is given back: \<^verbatim>\<open>PushBack(3)\<close> on the full vector
  \<open>[1, 2]\<close>, throwing while the old elements are copied, leaves the cell at index 2 of
  block 3 alive in a block that is no longer allocated.
\<close>

lemma PushBack_throw_leaves_new_element:
  "\<exists>h' v'. PushBack copying heap12_throw vec12 3 = Exc (h', v') Ctor_throw \<and>
      cells heap12_throw (3, 2) = None \<and> cells h' (3, 2) = Some 3 \<and> blocks h' 3 = None"
proof -
  have "case PushBack copying heap12_throw vec12 3 of
          Exc (h', v') e \<Rightarrow> e = Ctor_throw \<and> cells heap12_throw (3, 2) = None \<and>
             cells h' (3, 2) = Some 3 \<and> blocks h' 3 = None
        | _ \<Rightarrow> False"
    by code_simp
  then show ?thesis by (auto split: res.splits)
qed

subsection \<open>Shifting elements inside the block\<close>

lemma assign_value_Ret:
  "assign_value h d x = Ret h1 u \<Longrightarrow>
     cells h d \<noteq> None \<and> cells h1 = (cells h)(d \<mapsto> x) \<and> evolves h h1"
  by (auto simp: assign_value_def evolves_def split: if_splits prod.splits dest!: tick_elim)

lemma move_assign_Ret:
  "move_assign tr h s d = Ret h1 u \<Longrightarrow>
     \<exists>x. cells h s = Some x \<and> cells h d \<noteq> None \<and>
         cells h1 = (cells h)(d \<mapsto> x, s \<mapsto> moved_from tr x) \<and> evolves h h1"
  by (auto simp: move_assign_def evolves_def split: option.splits res.splits
           dest!: assign_value_Ret)

lemma move_loop_shift:
  "move_loop tr h (a, Suc p) n (a, p) = Ret h1 u \<Longrightarrow>
     cells h1 (c, i) =
       (if c = a \<and> p \<le> i \<and> i < p + n then cells h (a, Suc i)
        else if c = a \<and> i = p + n \<and> 0 < n then map_option (moved_from tr) (cells h (a, i))
        else cells h (c, i))"
proof (induction n arbitrary: h p)
  case 0
  then show ?case by auto
next
  case (Suc n)
  from Suc.prems obtain h2 where
    m: "move_assign tr h (a, Suc p) (a, p) = Ret h2 ()" and
    l: "move_loop tr h2 (a, Suc (Suc p)) n (a, Suc p) = Ret h1 u"
    by (auto simp: ptr_add_def split: res.splits)
  from move_assign_Ret[OF m] obtain x where
    x: "cells h (a, Suc p) = Some x"
       "cells h2 = (cells h)((a, p) \<mapsto> x, (a, Suc p) \<mapsto> moved_from tr x)"
    by auto
  note ih = Suc.IH[OF l]
  show ?case
  proof (cases "c = a")
    case False
    then show ?thesis using ih x(2) by simp
  next
    case True
    note ca = this
    consider "i < p" | "i = p" | "p < i" "i < p + Suc n" | "i = p + Suc n" | "p + Suc n < i"
      by linarith
    then show ?thesis
    proof cases
      case 1
      then show ?thesis using ih x(2) ca by simp
    next
      case 2
      then show ?thesis using ih x ca by simp
    next
      case 3
      then show ?thesis using ih x(2) ca by simp
    next
      case 4
      then show ?thesis using ih x ca by (cases n) auto
    next
      case 5
      then show ?thesis using ih x(2) ca by simp
    qed
  qed
qed

lemma move_backward_loop_shift:
  "move_backward_loop tr h n (a, f + n) (a, Suc (f + n)) = Ret h1 u \<Longrightarrow>
     cells h1 (c, i) =
       (if c = a \<and> f < i \<and> i \<le> f + n then cells h (a, i - 1)
        else if c = a \<and> i = f \<and> 0 < n then map_option (moved_from tr) (cells h (a, i))
        else cells h (c, i))"
proof (induction n arbitrary: h)
  case 0
  then show ?case by auto
next
  case (Suc n)
  from Suc.prems obtain h2 where
    m: "move_assign tr h (a, f + n) (a, Suc (f + n)) = Ret h2 ()" and
    l: "move_backward_loop tr h2 n (a, f + n) (a, Suc (f + n)) = Ret h1 u"
    by (auto simp: ptr_sub_def split: res.splits if_splits)
  from move_assign_Ret[OF m] obtain x where
    x: "cells h (a, f + n) = Some x"
       "cells h2 = (cells h)((a, Suc (f + n)) \<mapsto> x, (a, f + n) \<mapsto> moved_from tr x)"
    by auto
  note ih = Suc.IH[OF l]
  show ?case
  proof (cases "c = a")
    case False
    then show ?thesis using ih x(2) by simp
  next
    case True
    note ca = this
    consider "i < f" | "i = f" | "f < i" "i \<le> f + n" | "i = Suc (f + n)" | "Suc (f + n) < i"
      by linarith
    then show ?thesis
    proof cases
      case 1
      then show ?thesis using ih x(2) ca by simp
    next
      case 2
      then show ?thesis using ih x ca by (cases n) auto
    next
      case 3
      then have "i - 1 \<noteq> Suc (f + n)" "i - 1 \<noteq> f + n" by simp_all
      with 3 show ?thesis using ih x(2) ca by simp
    next
      case 4
      then show ?thesis using ih x ca by simp
    next
      case 5
      then show ?thesis using ih x(2) ca by simp
    qed
  qed
qed


subsection \<open>Emplace and Erase that return\<close>

lemma cend_pos:
  assumes "fst pos = buffer_m (data_m v)"
  shows "(pos = cend v) = (snd pos = size_m v)"
  using assms by (cases pos) (auto simp: cend_def RawMemory_plus_def)

lemma Emplace_in_place_Ret:
  assumes wf: "heap_ok h" and v: "valid h v"
    and p: "fst pos = buffer_m (data_m v)" "snd pos \<le> size_m v" "pos \<noteq> cend v"
    and room: "size_m v < capacity_m (data_m v)"
    and r: "Emplace nt tr h v pos x = Ret (h', v') it"
  shows "v' = v\<lparr>size_m := size_m v + 1\<rparr>"
    and "it = (buffer_m (data_m v), snd pos)"
    and "\<And>i. cells h' (buffer_m (data_m v), i) =
           (if i < snd pos then cells h (buffer_m (data_m v), i)
            else if i = snd pos then Some x
            else if i \<le> size_m v then cells h (buffer_m (data_m v), i - 1)
            else cells h (buffer_m (data_m v), i))"
    and "\<And>c i. c \<noteq> buffer_m (data_m v) \<Longrightarrow> cells h' (c, i) = cells h (c, i)"
    and "evolves h h'"
proof -
  define buf where "buf = buffer_m (data_m v)"
  define sz where "sz = size_m v"
  define k where "k = snd pos"
  have klt: "k < sz" using p cend_pos[OF p(1)] by (simp add: k_def sz_def)
  then obtain m where m: "sz = Suc m" by (cases sz) auto
  define n where "n = m - k"
  have kn: "k + n = m" using klt m by (simp add: n_def)
  note eq = Emplace_in_place_eq[OF p room, of nt tr h x]
  obtain b h1 where t: "(if nt then (False, h) else tick h) = (b, h1)"
    by (cases "if nt then (False, h) else tick h")
  note ct = ctor_tick[OF t]
  have pl: "RawMemory_plus (data_m v) (size_m v) = (buf, Suc m)"
    "ptr_sub (RawMemory_plus (data_m v) (size_m v)) 1 = (buf, m)"
    "RawMemory_plus (data_m v) (snd pos) = (buf, k)"
    by (simp_all add: RawMemory_plus_def ptr_sub_def buf_def sz_def[symmetric] m k_def)
  from r have nb: "\<not> b"
    unfolding eq t prod.case by (auto split: if_splits)
  from nb have bf: "b = False" by simp
  have pl2: "ptr_sub (buf, Suc m) 1 = (buf, m)" by (simp add: ptr_sub_def)
  from r have r1:
    "(case uninitialized_move tr h1 (buf, m) (buf, Suc m) (buf, Suc m) of
        Exc h2 e \<Rightarrow> Exc (h2, v) e
      | UB \<Rightarrow> UB
      | Ret h2 _ \<Rightarrow>
          (case move_backward tr h2 (buf, k) (buf, m) (buf, Suc m) of
             Exc h3 e \<Rightarrow> Exc (h3, v) e
           | UB \<Rightarrow> UB
           | Ret h3 _ \<Rightarrow>
               (case assign_value h3 (buf, k) x of
                  Exc h4 e \<Rightarrow> Exc (h4, v) e
                | UB \<Rightarrow> UB
                | Ret h4 _ \<Rightarrow> Ret (h4, v\<lparr>size_m := size_m v + 1\<rparr>) (buf, k)))) =
     Ret (h', v') it"
    unfolding eq t prod.case bf if_False pl pl2 .
  then obtain h2 where
    c2: "uninitialized_move tr h1 (buf, m) (buf, Suc m) (buf, Suc m) = Ret h2 ()" and
    r2: "(case move_backward tr h2 (buf, k) (buf, m) (buf, Suc m) of
             Exc h3 e \<Rightarrow> Exc (h3, v) e
           | UB \<Rightarrow> UB
           | Ret h3 _ \<Rightarrow>
               (case assign_value h3 (buf, k) x of
                  Exc h4 e \<Rightarrow> Exc (h4, v) e
                | UB \<Rightarrow> UB
                | Ret h4 _ \<Rightarrow> Ret (h4, v\<lparr>size_m := size_m v + 1\<rparr>) (buf, k))) =
         Ret (h', v') it"
    by (cases "uninitialized_move tr h1 (buf, m) (buf, Suc m) (buf, Suc m)") auto
  then obtain h3 where
    c3: "move_backward tr h2 (buf, k) (buf, m) (buf, Suc m) = Ret h3 ()" and
    r3: "(case assign_value h3 (buf, k) x of
                  Exc h4 e \<Rightarrow> Exc (h4, v) e
                | UB \<Rightarrow> UB
                | Ret h4 _ \<Rightarrow> Ret (h4, v\<lparr>size_m := size_m v + 1\<rparr>) (buf, k)) =
         Ret (h', v') it"
    by (cases "move_backward tr h2 (buf, k) (buf, m) (buf, Suc m)") auto
  then have
    c4: "assign_value h3 (buf, k) x = Ret h' ()" and
    e: "v' = v\<lparr>size_m := size_m v + 1\<rparr>" "it = (buf, k)"
    by (cases "assign_value h3 (buf, k) x"; auto)+
  from c2 have "uninitialized_move_loop tr h1 (buf, m) (Suc 0) (buf, Suc m) 0 = Ret h2 ()"
    by (simp add: uninitialized_move_def uninitialized_move_n_def)
  then have mc: "move_construct tr h1 (buf, m) (buf, Suc m) = Ret h2 ()"
    by (auto split: res.splits)
  from move_construct_Ret[OF mc] obtain x0 where
    f2: "cells h1 (buf, m) = Some x0"
        "cells h2 = (cells h1)((buf, Suc m) \<mapsto> x0, (buf, m) \<mapsto> moved_from tr x0)"
        "evolves h1 h2"
    by auto
  from c3 have "move_backward_loop tr h2 n (buf, k + n) (buf, Suc (k + n)) = Ret h3 ()"
    using klt m by (simp add: move_backward_def n_def kn)
  note f3 = move_backward_loop_shift[OF this]
  have ev3: "evolves h2 h3"
    using c3 by (auto simp: move_backward_def split: if_splits
                      dest: move_backward_loop_evolves[OF disjI1])
  from assign_value_Ret[OF c4] have
    f4: "cells h' = (cells h3)((buf, k) \<mapsto> x)" "evolves h3 h'"
    by simp_all
  show "v' = v\<lparr>size_m := size_m v + 1\<rparr>" by (rule e(1))
  show "it = (buffer_m (data_m v), snd pos)" using e(2) by (simp add: buf_def k_def)
  show "evolves h h'"
    using ct(2) f2(3) ev3 f4(2) by (blast intro: evolves_trans)
  show "cells h' (c, i) = cells h (c, i)" if "c \<noteq> buffer_m (data_m v)" for c i
    using that by (simp add: f4(1) f3 f2(2) ct(1) buf_def[symmetric])
  show "cells h' (buffer_m (data_m v), i) =
           (if i < snd pos then cells h (buffer_m (data_m v), i)
            else if i = snd pos then Some x
            else if i \<le> size_m v then cells h (buffer_m (data_m v), i - 1)
            else cells h (buffer_m (data_m v), i))" for i
  proof -
    consider "i < k" | "i = k" | "k < i" "i \<le> m" | "i = Suc m" | "Suc m < i"
      by linarith
    then have "cells h' (buf, i) =
           (if i < k then cells h (buf, i)
            else if i = k then Some x
            else if i \<le> Suc m then cells h (buf, i - 1)
            else cells h (buf, i))"
    proof cases
      case 1
      then show ?thesis using kn by (simp add: f4(1) f3 f2(2) ct(1))
    next
      case 2
      then show ?thesis by (simp add: f4(1))
    next
      case 3
      then have "i - 1 \<noteq> Suc m" "i - 1 \<noteq> m" by simp_all
      with 3 show ?thesis using kn by (simp add: f4(1) f3 f2(2) ct(1))
    next
      case 4
      then show ?thesis using kn klt m f2(1) by (simp add: f4(1) f3 f2(2) ct(1))
    next
      case 5
      then show ?thesis using kn klt m by (simp add: f4(1) f3 f2(2) ct(1))
    qed
    then show ?thesis by (simp add: buf_def k_def sz_def[symmetric] m)
  qed
qed

lemma Emplace_Ret:
  assumes wf: "heap_ok h" and v: "valid h v"
    and r: "Emplace nt tr h v pos x = Ret (h', v') it"
  shows "size_m v' = Suc (size_m v)"
    and "elems h' v' = take (snd pos) (elems h v) @ Some x # drop (snd pos) (elems h v)"
    and "valid h' v'" and "heap_ok h'"
    and "it = (buffer_m (data_m v'), snd pos)" and "snd pos \<le> size_m v"
proof -
  note p = Emplace_pos[OF disjI1, OF r]
  have "size_m v' = Suc (size_m v) \<and>
        elems h' v' = take (snd pos) (elems h v) @ Some x # drop (snd pos) (elems h v) \<and>
        valid h' v' \<and> heap_ok h' \<and> it = (buffer_m (data_m v'), snd pos)"
  proof (cases "pos = cend v")
    case True
    then have sp: "snd pos = size_m v" by (simp add: cend_def RawMemory_plus_def)
    from r obtain u where b: "push_back_body nt tr h v x = Ret (h', v') u"
      and i: "it = RawMemory_plus (data_m v') (snd pos)"
      unfolding Emplace_end_eq[OF p True] EmplaceBack_def
      by (auto split: res.splits prod.splits)
    note f = push_back_body_Ret[OF wf v b]
    from f(1-4) i sp show ?thesis by (simp add: RawMemory_plus_def)
  next
    case False
    note ne = this
    show ?thesis
    proof (cases "size_m v < capacity_m (data_m v)")
      case True
      note g = Emplace_in_place_Ret[OF wf v p ne True r]
      define buf where "buf = buffer_m (data_m v)"
      have lt: "buf < next_addr h" using valid_fresh[OF wf v] by (simp add: buf_def)
      have 1: "size_m v' = Suc (size_m v)" using g(1) by simp
      have bv: "buffer_m (data_m v') = buf" using g(1) by (simp add: buf_def)
      have 2: "elems h' v' = take (snd pos) (elems h v) @ Some x # drop (snd pos) (elems h v)"
      proof (rule elems_inserted[OF 1 p(2)])
        fix i assume "i \<le> size_m v"
        then show "cells h' (buffer_m (data_m v'), i) =
           (if i < snd pos then cells h (buffer_m (data_m v), i)
            else if i = snd pos then Some x else cells h (buffer_m (data_m v), i - 1))"
          using g(3)[of i] bv by (simp add: buf_def)
      qed
      have blk: "blocks h' = blocks h" "next_addr h' = next_addr h" "sizeof_T h' = sizeof_T h"
        using g(5) by (simp_all add: evolves_def)
      have 3: "valid h' v'"
        using v True p(2) g(1) g(3) valid_cells[OF v]
        by (auto simp: valid_def blk)
      have 4: "heap_ok h'"
        using wf lt g(4) by (auto simp: heap_ok_def blk buf_def)
      from 1 2 3 4 g(2) bv show ?thesis by (simp add: buf_def)
    next
      case full: False
      define n where "n = (if size_m v = 0 then 1 else 2 * size_m v)"
      have n: "size_m v < n" by (simp add: n_def)
      from Emplace_realloc_Ret[OF ne full r] obtain h1 nd h2 h3 h4 v1 where
        c1: "RawMemory_ctor h n = Ret h1 nd" and
        c2: "placement_new nt h1 (RawMemory_plus nd (snd pos)) x = Ret h2 ()" and
        c3: "relocate_n tr h2 (GetAddress (data_m v)) (snd pos) (GetAddress nd) = Ret h3 ()" and
        c4: "relocate_n tr h3 (ptr_add (GetAddress (data_m v)) (snd pos)) (size_m v - snd pos)
               (ptr_add (ptr_add (GetAddress nd) (snd pos)) 1) = Ret h4 ()" and
        c5: "adopt h4 v nd = Ret (h', v1) ()" and
        e: "v' = v1\<lparr>size_m := size_m v1 + 1\<rparr>" "it = RawMemory_plus (data_m v1) (snd pos)"
        unfolding n_def by blast
      note core = realloc_core[OF wf v p(2) n c1 c2 c3 c4 c5]
      have rn: "room h n = n"
        using room_grow[OF heap_ok_sizeof[OF wf] valid_bytes[OF wf v]] core(10)
        unfolding n_def[symmetric] by (simp add: room_eq heap_ok_sizeof[OF wf])
      define a where "a = next_addr h"
      have old_lt: "buffer_m (data_m v) < a" using valid_fresh[OF wf v] by (simp add: a_def)
      have a0: "0 < a" using wf by (simp add: heap_ok_def a_def)
      note cells_a = core(3)[folded a_def]
      have 1: "size_m v' = Suc (size_m v)" using e core(2) by simp
      have 2: "elems h' v' = take (snd pos) (elems h v) @ Some x # drop (snd pos) (elems h v)"
      proof (rule elems_inserted[OF 1 p(2)])
        fix i assume "i \<le> size_m v"
        then show "cells h' (buffer_m (data_m v'), i) =
           (if i < snd pos then cells h (buffer_m (data_m v), i)
            else if i = snd pos then Some x else cells h (buffer_m (data_m v), i - 1))"
          using e core(1) cells_a[of i] by (simp add: a_def)
      qed
      have 3: "valid h' v'"
        using e core(1,2,8) n old_lt a0 cells_a p(2) valid_cells[OF v]
        by (auto simp: valid_def a_def[symmetric] nullptr_def rn)
      have 4: "heap_ok h'"
        using e wf core(4,5,8,9) old_lt room_bytes[of h n]
        by (auto simp: heap_ok_def a_def[symmetric] nullptr_def)
      from 1 2 3 4 e core(1) show ?thesis by (simp add: RawMemory_plus_def)
    qed
  qed
  with p(2) show "size_m v' = Suc (size_m v)"
    and "elems h' v' = take (snd pos) (elems h v) @ Some x # drop (snd pos) (elems h v)"
    and "valid h' v'" and "heap_ok h'"
    and "it = (buffer_m (data_m v'), snd pos)" and "snd pos \<le> size_m v"
    by blast+
qed


lemma Erase_bad_pos:
  "fst pos \<noteq> buffer_m (data_m v) \<or> snd pos \<ge> size_m v \<Longrightarrow> Erase tr h v pos = UB"
  by (simp add: Erase_def)

lemma Erase_Ret:
  assumes v: "valid h v" and r: "Erase tr h v pos = Ret (h', v') it"
  shows "snd pos < size_m v" and "v' = v\<lparr>size_m := size_m v - 1\<rparr>"
    and "it = (buffer_m (data_m v), snd pos)"
    and "\<And>i. cells h' (buffer_m (data_m v), i) =
           (if i < snd pos then cells h (buffer_m (data_m v), i)
            else if Suc i < size_m v then cells h (buffer_m (data_m v), Suc i)
            else None)"
    and "\<And>c i. c \<noteq> buffer_m (data_m v) \<Longrightarrow> cells h' (c, i) = cells h (c, i)"
    and "evolves h h'"
proof -
  define buf where "buf = buffer_m (data_m v)"
  define k where "k = snd pos"
  have nb: "False" if "fst pos \<noteq> buffer_m (data_m v) \<or> snd pos \<ge> size_m v"
    using Erase_bad_pos[OF that, of tr h] r by simp
  then have p: "fst pos = buf" "k < size_m v"
    by (auto simp: buf_def k_def not_le[symmetric])
  then obtain m where m: "size_m v = Suc m" by (cases "size_m v") auto
  define n where "n = m - k"
  have kn: "k + n = m" using p(2) m by (simp add: n_def)
  have pl: "ptr_add (RawMemory_plus (data_m v) (snd pos)) 1 = (buf, Suc k)"
    "RawMemory_plus (data_m v) (size_m v) = (buf, Suc m)"
    "RawMemory_plus (data_m v) (snd pos) = (buf, k)"
    "ptr_sub (RawMemory_plus (data_m v) (size_m v)) 1 = (buf, m)"
    by (simp_all add: RawMemory_plus_def ptr_add_def ptr_sub_def buf_def k_def m)
  from r p have r1:
    "(case std_move tr h (ptr_add (RawMemory_plus (data_m v) (snd pos)) 1)
                (RawMemory_plus (data_m v) (size_m v))
                (RawMemory_plus (data_m v) (snd pos)) of
           Exc h1 e \<Rightarrow> Exc (h1, v) e
         | UB \<Rightarrow> UB
         | Ret h1 _ \<Rightarrow>
             (case destroy_at h1 (ptr_sub (RawMemory_plus (data_m v) (size_m v)) 1) of
                Ret h2 _ \<Rightarrow> Ret (h2, v\<lparr>size_m := size_m v - 1\<rparr>) (RawMemory_plus (data_m v) (snd pos))
              | Exc h2 e \<Rightarrow> Exc (h2, v) e
              | UB \<Rightarrow> UB)) = Ret (h', v') it"
    by (simp add: Erase_def buf_def k_def)
  then obtain h1 where
    c1: "std_move tr h (ptr_add (RawMemory_plus (data_m v) (snd pos)) 1)
                (RawMemory_plus (data_m v) (size_m v))
                (RawMemory_plus (data_m v) (snd pos)) = Ret h1 ()" and
    r2: "(case destroy_at h1 (ptr_sub (RawMemory_plus (data_m v) (size_m v)) 1) of
                Ret h2 _ \<Rightarrow> Ret (h2, v\<lparr>size_m := size_m v - 1\<rparr>) (RawMemory_plus (data_m v) (snd pos))
              | Exc h2 e \<Rightarrow> Exc (h2, v) e
              | UB \<Rightarrow> UB) = Ret (h', v') it"
    by (cases "std_move tr h (ptr_add (RawMemory_plus (data_m v) (snd pos)) 1)
                (RawMemory_plus (data_m v) (size_m v))
                (RawMemory_plus (data_m v) (snd pos))") auto
  then have
    c2: "destroy_at h1 (ptr_sub (RawMemory_plus (data_m v) (size_m v)) 1) = Ret h' ()" and
    e: "v' = v\<lparr>size_m := size_m v - 1\<rparr>" "it = RawMemory_plus (data_m v) (snd pos)"
    by (cases "destroy_at h1 (ptr_sub (RawMemory_plus (data_m v) (size_m v)) 1)"; auto)+
  from c1[unfolded pl] have ml: "move_loop tr h (buf, Suc k) n (buf, k) = Ret h1 ()"
    using p(2) m by (simp add: std_move_def n_def ptr_add_def split: if_splits)
  note f1 = move_loop_shift[OF ml]
  have ev1: "evolves h h1" using move_loop_evolves[OF disjI1, OF ml] .
  from destroy_at_Ret[OF c2] have
    f2: "cells h' = (cells h1)((buf, m) := None)" "evolves h1 h'"
    by (simp_all add: pl ptr_sub_def)
  have vc: "\<And>i. (cells h (buf, i) \<noteq> None) = (i < Suc m)"
    using valid_cells[OF v] by (simp add: buf_def m)
  show "snd pos < size_m v" using p(2) by (simp add: k_def)
  show "v' = v\<lparr>size_m := size_m v - 1\<rparr>" by (rule e(1))
  show "it = (buffer_m (data_m v), snd pos)" using e(2) by (simp add: pl buf_def k_def)
  show "evolves h h'" using ev1 f2(2) by (rule evolves_trans)
  show "cells h' (c, i) = cells h (c, i)" if "c \<noteq> buffer_m (data_m v)" for c i
    using that by (simp add: f2(1) f1 buf_def[symmetric])
  show "cells h' (buffer_m (data_m v), i) =
           (if i < snd pos then cells h (buffer_m (data_m v), i)
            else if Suc i < size_m v then cells h (buffer_m (data_m v), Suc i)
            else None)" for i
  proof -
    consider "i < k" | "k \<le> i" "i < m" | "i = m" | "m < i"
      by linarith
    then have "cells h' (buf, i) =
           (if i < k then cells h (buf, i)
            else if Suc i < Suc m then cells h (buf, Suc i)
            else None)"
    proof cases
      case 1
      then show ?thesis using kn by (simp add: f2(1) f1)
    next
      case 2
      then show ?thesis using kn by (simp add: f2(1) f1)
    next
      case 3
      then show ?thesis using kn p(2) m by (simp add: f2(1))
    next
      case 4
      then show ?thesis using kn p(2) m vc[of i] by (simp add: f2(1) f1)
    qed
    then show ?thesis by (simp add: buf_def k_def m)
  qed
qed

lemma elems_erased:
  assumes "Suc (size_m v') = size_m v" and "k < size_m v"
    and "\<And>i. i < size_m v' \<Longrightarrow> cells h' (buffer_m (data_m v'), i) =
           (if i < k then cells h (buffer_m (data_m v), i)
            else cells h (buffer_m (data_m v), Suc i))"
  shows "elems h' v' = take k (elems h v) @ drop (Suc k) (elems h v)"
proof (rule nth_equalityI)
  show "length (elems h' v') = length (take k (elems h v) @ drop (Suc k) (elems h v))"
    using assms(1,2) by simp
next
  fix i assume "i < length (elems h' v')"
  then have i: "i < size_m v'" by simp
  then have l: "elems h' v' ! i = cells h' (buffer_m (data_m v'), i)"
    by (simp add: elems_nth)
  show "elems h' v' ! i = (take k (elems h v) @ drop (Suc k) (elems h v)) ! i"
  proof (cases "i < k")
    case True
    then show ?thesis using l assms(1,2) assms(3)[OF i] i
      by (simp add: nth_append elems_nth)
  next
    case False
    then have "Suc (k + (i - k)) = Suc i" by simp
    then show ?thesis using l assms(1,2) assms(3)[OF i] i False
      by (simp add: nth_append elems_nth min_def)
  qed
qed

lemma Erase_elems:
  assumes v: "valid h v" and r: "Erase tr h v pos = Ret (h', v') it"
  shows "elems h' v' = take (snd pos) (elems h v) @ drop (Suc (snd pos)) (elems h v)"
    and "Suc (size_m v') = size_m v"
proof -
  note g = Erase_Ret[OF v r]
  show s: "Suc (size_m v') = size_m v" using g(1,2) by simp
  show "elems h' v' = take (snd pos) (elems h v) @ drop (Suc (snd pos)) (elems h v)"
  proof (rule elems_erased[OF s g(1)])
    fix i assume "i < size_m v'"
    with s have "Suc i < size_m v" by simp
    then show "cells h' (buffer_m (data_m v'), i) =
           (if i < snd pos then cells h (buffer_m (data_m v), i)
            else cells h (buffer_m (data_m v), Suc i))"
      using g(2) g(4)[of i] by simp
  qed
qed

subsection \<open>Emplace, Erase and the shrinking calls return\<close>

lemma assign_value_returns:
  "quiet h \<Longrightarrow> cells h d \<noteq> None \<Longrightarrow> \<exists>h1. assign_value h d x = Ret h1 ()"
  by (auto simp: assign_value_def dest!: tick_quiet)

lemma move_assign_returns:
  assumes "quiet h" and "cells h s \<noteq> None" and "cells h d \<noteq> None"
  shows "\<exists>h1. move_assign tr h s d = Ret h1 () \<and> quiet h1 \<and>
              (\<forall>p. cells h p \<noteq> None \<longrightarrow> cells h1 p \<noteq> None)"
proof -
  from assms(2) obtain x where x: "cells h s = Some x" by auto
  from assign_value_returns[OF assms(1,3)] obtain h1 where
    a: "assign_value h d x = Ret h1 ()" by blast
  define h2 where "h2 = h1\<lparr>cells := (cells h1)(s \<mapsto> moved_from tr x)\<rparr>"
  from a x have m: "move_assign tr h s d = Ret h2 ()"
    by (simp add: move_assign_def h2_def)
  from move_assign_Ret[OF m] x have
    f: "cells h2 = (cells h)(d \<mapsto> x, s \<mapsto> moved_from tr x)" "evolves h h2"
    by simp_all
  have "quiet h2" using assms(1) f(2) by (rule quiet_evolves)
  moreover have "\<forall>p. cells h p \<noteq> None \<longrightarrow> cells h2 p \<noteq> None" by (simp add: f(1))
  ultimately show ?thesis using m by blast
qed

lemma move_loop_returns:
  "quiet h \<Longrightarrow> (\<And>i. i < n \<Longrightarrow> cells h (a, s + i) \<noteq> None) \<Longrightarrow>
   (\<And>i. i < n \<Longrightarrow> cells h (b, d + i) \<noteq> None) \<Longrightarrow>
   \<exists>h1. move_loop tr h (a, s) n (b, d) = Ret h1 ()"
proof (induction n arbitrary: h s d)
  case 0
  then show ?case by simp
next
  case (Suc n)
  from Suc.prems(2)[of 0] Suc.prems(3)[of 0] have
    c: "cells h (a, s) \<noteq> None" "cells h (b, d) \<noteq> None" by simp_all
  from move_assign_returns[OF Suc.prems(1) c] obtain h2 where
    m: "move_assign tr h (a, s) (b, d) = Ret h2 ()" and q: "quiet h2" and
    k: "\<And>p. cells h p \<noteq> None \<Longrightarrow> cells h2 p \<noteq> None"
    by blast
  have "\<exists>h1. move_loop tr h2 (a, Suc s) n (b, Suc d) = Ret h1 ()"
  proof (rule Suc.IH[OF q])
    fix i assume "i < n"
    then show "cells h2 (a, Suc s + i) \<noteq> None" using Suc.prems(2)[of "Suc i"] k by simp
  next
    fix i assume "i < n"
    then show "cells h2 (b, Suc d + i) \<noteq> None" using Suc.prems(3)[of "Suc i"] k by simp
  qed
  with m show ?case by (simp add: ptr_add_def)
qed

lemma move_backward_loop_returns:
  "quiet h \<Longrightarrow> n \<le> l \<Longrightarrow> n \<le> dl \<Longrightarrow>
   (\<And>i. i < l \<Longrightarrow> l - n \<le> i \<Longrightarrow> cells h (a, i) \<noteq> None) \<Longrightarrow>
   (\<And>i. i < dl \<Longrightarrow> dl - n \<le> i \<Longrightarrow> cells h (b, i) \<noteq> None) \<Longrightarrow>
   \<exists>h1. move_backward_loop tr h n (a, l) (b, dl) = Ret h1 ()"
proof (induction n arbitrary: h l dl)
  case 0
  then show ?case by simp
next
  case (Suc n)
  from Suc.prems(2,3) obtain l' dl' where l: "l = Suc l'" "dl = Suc dl'"
    by (cases l; cases dl) auto
  from Suc.prems(4)[of l'] Suc.prems(5)[of dl'] l have
    c: "cells h (a, l') \<noteq> None" "cells h (b, dl') \<noteq> None" by simp_all
  from move_assign_returns[OF Suc.prems(1) c] obtain h2 where
    m: "move_assign tr h (a, l') (b, dl') = Ret h2 ()" and q: "quiet h2" and
    k: "\<And>p. cells h p \<noteq> None \<Longrightarrow> cells h2 p \<noteq> None"
    by blast
  have "\<exists>h1. move_backward_loop tr h2 n (a, l') (b, dl') = Ret h1 ()"
  proof (rule Suc.IH[OF q])
    show "n \<le> l'" "n \<le> dl'" using Suc.prems(2,3) l by simp_all
  next
    fix i assume "i < l'" "l' - n \<le> i"
    then show "cells h2 (a, i) \<noteq> None" using Suc.prems(4)[of i] k l by simp
  next
    fix i assume "i < dl'" "dl' - n \<le> i"
    then show "cells h2 (b, i) \<noteq> None" using Suc.prems(5)[of i] k l by simp
  qed
  with m l show ?case by (simp add: ptr_sub_def)
qed

lemma Erase_returns:
  assumes v: "valid h v" and q: "quiet h"
    and p: "fst pos = buffer_m (data_m v)" "snd pos < size_m v"
  shows "\<exists>h' v' it. Erase tr h v pos = Ret (h', v') it \<and> quiet h'"
proof -
  define buf where "buf = buffer_m (data_m v)"
  define sz where "sz = size_m v"
  define k where "k = snd pos"
  have klt: "k < sz" using p by (simp add: k_def sz_def)
  define n where "n = sz - Suc k"
  have vc: "\<And>i. (cells h (buf, i) \<noteq> None) = (i < sz)"
    using valid_cells[OF v] by (simp add: buf_def sz_def)
  have "\<exists>h1. move_loop tr h (buf, Suc k) n (buf, k) = Ret h1 ()"
  proof (rule move_loop_returns[OF q])
    fix i assume "i < n"
    then show "cells h (buf, Suc k + i) \<noteq> None"
      using klt vc[of "Suc k + i"] by (simp add: n_def)
  next
    fix i assume "i < n"
    then show "cells h (buf, k + i) \<noteq> None"
      using klt vc[of "k + i"] by (simp add: n_def)
  qed
  then obtain h1 where ml: "move_loop tr h (buf, Suc k) n (buf, k) = Ret h1 ()" by blast
  note f = move_loop_shift[OF ml]
  have ev: "evolves h h1" using move_loop_evolves[OF disjI1, OF ml] .
  have "k + n = sz - 1" using klt by (simp add: n_def)
  then have "cells h1 (buf, sz - 1) \<noteq> None"
    using f[of buf "sz - 1"] vc[of "sz - 1"] klt by (auto simp: n_def)
  then obtain h2 where d: "destroy_at h1 (buf, sz - 1) = Ret h2 ()"
    by (auto simp: destroy_at_def)
  have "evolves h1 h2" using destroy_at_Ret[OF d] by simp
  with ev q have q2: "quiet h2" by (blast intro: quiet_evolves)
  have sm: "std_move tr h (ptr_add (RawMemory_plus (data_m v) (snd pos)) 1)
                (RawMemory_plus (data_m v) (size_m v))
                (RawMemory_plus (data_m v) (snd pos)) = Ret h1 ()"
    using ml klt
    by (simp add: std_move_def RawMemory_plus_def ptr_add_def buf_def sz_def k_def n_def)
  have da: "destroy_at h1 (ptr_sub (RawMemory_plus (data_m v) (size_m v)) 1) = Ret h2 ()"
    using d by (simp add: RawMemory_plus_def ptr_sub_def buf_def sz_def)
  from p have np: "\<not> (fst pos \<noteq> buffer_m (data_m v) \<or> snd pos \<ge> size_m v)" by simp
  have "Erase tr h v pos = Ret (h2, v\<lparr>size_m := size_m v - 1\<rparr>) (RawMemory_plus (data_m v) (snd pos))"
    unfolding Erase_def using np sm da by simp
  with q2 show ?thesis by blast
qed


lemma Emplace_in_place_returns:
  assumes v: "valid h v" and q: "quiet h"
    and p: "fst pos = buffer_m (data_m v)" "snd pos \<le> size_m v" "pos \<noteq> cend v"
    and room: "size_m v < capacity_m (data_m v)"
  shows "\<exists>h' v' it. Emplace nt tr h v pos x = Ret (h', v') it \<and> quiet h'"
proof -
  define buf where "buf = buffer_m (data_m v)"
  define sz where "sz = size_m v"
  define k where "k = snd pos"
  have klt: "k < sz" using p cend_pos[OF p(1)] by (simp add: k_def sz_def)
  then obtain m where m: "sz = Suc m" by (cases sz) auto
  have km: "k \<le> m" using klt m by simp
  have vc: "\<And>i. (cells h (buf, i) \<noteq> None) = (i < sz)"
    using valid_cells[OF v] by (simp add: buf_def sz_def)
  have blk: "blocks h buf = Some (capacity_m (data_m v))"
    using v room by (auto simp: valid_def buf_def split: if_splits)
  note eq = Emplace_in_place_eq[OF p room, of nt tr h x]
  have "\<exists>h1. (if nt then (False, h) else tick h) = (False, h1)"
    using tick_quiet[OF q] by simp
  then obtain h1 where t: "(if nt then (False, h) else tick h) = (False, h1)" by blast
  note ct = ctor_tick[OF t]
  have q1: "quiet h1" using q ct(2) by (rule quiet_evolves)
  have b1: "blocks h1 = blocks h" using ct(2) by (simp add: evolves_def)
  have pl: "RawMemory_plus (data_m v) (size_m v) = (buf, Suc m)"
    "ptr_sub (RawMemory_plus (data_m v) (size_m v)) 1 = (buf, m)"
    "RawMemory_plus (data_m v) (snd pos) = (buf, k)"
    by (simp_all add: RawMemory_plus_def ptr_sub_def buf_def sz_def[symmetric] m k_def)
  from vc[of m] m obtain x0 where x0: "cells h1 (buf, m) = Some x0" by (auto simp: ct(1))
  have "in_block h1 (buf, Suc m)"
    using room by (simp add: in_block_def b1 blk sz_def[symmetric] m)
  moreover have "cells h1 (buf, Suc m) = None" using vc[of "Suc m"] m by (simp add: ct(1))
  ultimately obtain g where
    pn: "placement_new (nothrow_move_constructible tr) h1 (buf, Suc m) x0 = Ret g ()"
    using placement_new_returns[OF q1] by blast
  define h2 where "h2 = g\<lparr>cells := (cells g)((buf, m) \<mapsto> moved_from tr x0)\<rparr>"
  from pn x0 have mc: "move_construct tr h1 (buf, m) (buf, Suc m) = Ret h2 ()"
    by (simp add: move_construct_def h2_def)
  from move_construct_Ret[OF mc] x0 have
    f2: "cells h2 = (cells h1)((buf, Suc m) \<mapsto> x0, (buf, m) \<mapsto> moved_from tr x0)"
        "evolves h1 h2"
    by simp_all
  have q2: "quiet h2" using q1 f2(2) by (rule quiet_evolves)
  have c2: "uninitialized_move tr h1 (buf, m) (buf, Suc m) (buf, Suc m) = Ret h2 ()"
    using mc by (simp add: uninitialized_move_def uninitialized_move_n_def ptr_add_def)
  have live2: "cells h2 (buf, i) \<noteq> None" if "i < sz" for i
    using that vc[of i] by (simp add: f2(1) ct(1))
  have "\<exists>h3. move_backward_loop tr h2 (m - k) (buf, m) (buf, Suc m) = Ret h3 ()"
  proof (rule move_backward_loop_returns[OF q2])
    show "m - k \<le> m" "m - k \<le> Suc m" by simp_all
  next
    fix i assume "i < m"
    then show "cells h2 (buf, i) \<noteq> None" using live2[of i] m by simp
  next
    fix i assume "i < Suc m"
    then show "cells h2 (buf, i) \<noteq> None" using live2[of i] m by simp
  qed
  then obtain h3 where ml: "move_backward_loop tr h2 (m - k) (buf, m) (buf, Suc m) = Ret h3 ()"
    by blast
  have c3: "move_backward tr h2 (buf, k) (buf, m) (buf, Suc m) = Ret h3 ()"
    using ml km by (simp add: move_backward_def)
  have ev3: "evolves h2 h3" using move_backward_loop_evolves[OF disjI1, OF ml] .
  have q3: "quiet h3" using q2 ev3 by (rule quiet_evolves)
  have kn: "k + (m - k) = m" using km by simp
  from ml have "move_backward_loop tr h2 (m - k) (buf, k + (m - k)) (buf, Suc (k + (m - k))) = Ret h3 ()"
    by (simp only: kn)
  note f3 = move_backward_loop_shift[OF this]
  have "cells h3 (buf, k) \<noteq> None"
    using f3[of buf k] live2[of k] klt by auto
  from assign_value_returns[OF q3 this] obtain h4 where
    c4: "assign_value h3 (buf, k) x = Ret h4 ()" by blast
  have q4: "quiet h4" using q3 assign_value_Ret[OF c4] by (blast intro: quiet_evolves)
  have pl2: "ptr_sub (buf, Suc m) 1 = (buf, m)" by (simp add: ptr_sub_def)
  have "Emplace nt tr h v pos x = Ret (h4, v\<lparr>size_m := size_m v + 1\<rparr>) (buf, k)"
    unfolding eq t prod.case if_False pl pl2 c2 c3 c4 res.case ..
  with q4 show ?thesis by blast
qed

lemma Emplace_realloc_returns:
  assumes wf: "heap_ok h" and v: "valid h v" and q: "quiet h"
    and p: "fst pos = buffer_m (data_m v)" "snd pos \<le> size_m v" "pos \<noteq> cend v"
    and full: "\<not> size_m v < capacity_m (data_m v)"
    and fit: "(if size_m v = 0 then 1 else 2 * size_m v) * sizeof_T h < 2 ^ 64"
  shows "\<exists>h' v' it. Emplace nt tr h v pos x = Ret (h', v') it"
proof -
  define n where "n = (if size_m v = 0 then 1 else 2 * size_m v)"
  have n: "size_m v < n" by (simp add: n_def)
  note eq = Emplace_realloc_eq[OF p full, of nt tr h x, folded n_def]
  from grow_returns[OF wf v q p(2) n fit[folded n_def], of nt x tr]
  obtain h1 nd h2 h3 h4 h5 v1 where
    c: "RawMemory_ctor h n = Ret h1 nd"
    "placement_new nt h1 (RawMemory_plus nd (snd pos)) x = Ret h2 ()"
    "relocate_n tr h2 (GetAddress (data_m v)) (snd pos) (GetAddress nd) = Ret h3 ()"
    "relocate_n tr h3 (ptr_add (GetAddress (data_m v)) (snd pos)) (size_m v - snd pos)
             (ptr_add (ptr_add (GetAddress nd) (snd pos)) 1) = Ret h4 ()"
    "adopt h4 v nd = Ret (h5, v1) ()"
    by blast
  have "Emplace nt tr h v pos x =
          Ret (h5, v1\<lparr>size_m := size_m v1 + 1\<rparr>) (RawMemory_plus (data_m v1) (snd pos))"
    unfolding eq c res.case prod.case ..
  then show ?thesis by blast
qed

lemma Emplace_quiet:
  assumes wf: "heap_ok h" and v: "valid h v" and q: "quiet h"
    and r: "Emplace nt tr h v pos x = Ret (h', v') it"
  shows "quiet h'"
proof -
  note p = Emplace_pos[OF disjI1, OF r]
  show ?thesis
  proof (cases "pos = cend v")
    case True
    from r obtain u where "push_back_body nt tr h v x = Ret (h', v') u"
      unfolding Emplace_end_eq[OF p True] EmplaceBack_def
      by (auto split: res.splits)
    from push_back_body_Ret(5)[OF wf v this] q show ?thesis by (rule quiet_mono[rotated])
  next
    case ne: False
    show ?thesis
    proof (cases "size_m v < capacity_m (data_m v)")
      case True
      from Emplace_in_place_Ret(5)[OF wf v p ne True r] q show ?thesis
        by (rule quiet_evolves[rotated])
    next
      case False
      from Emplace_realloc_Ret[OF ne False r] obtain h1 nd h2 h3 h4 v1 where
        c: "RawMemory_ctor h (if size_m v = 0 then 1 else 2 * size_m v) = Ret h1 nd"
        "placement_new nt h1 (RawMemory_plus nd (snd pos)) x = Ret h2 ()"
        "relocate_n tr h2 (GetAddress (data_m v)) (snd pos) (GetAddress nd) = Ret h3 ()"
        "relocate_n tr h3 (ptr_add (GetAddress (data_m v)) (snd pos)) (size_m v - snd pos)
             (ptr_add (ptr_add (GetAddress nd) (snd pos)) 1) = Ret h4 ()"
        "adopt h4 v nd = Ret (h', v1) ()"
        by blast
      have "quiet h1" using q RawMemory_ctor_Ret[OF c(1)] by (auto intro: quiet_mono)
      then have "quiet h2" using placement_new_Ret[OF c(2)] by (blast intro: quiet_evolves)
      then have "quiet h3" using relocate_n_evolves[OF disjI1, OF c(3)] by (blast intro: quiet_evolves)
      then have "quiet h4" using relocate_n_evolves[OF disjI1, OF c(4)] by (blast intro: quiet_evolves)
      then show ?thesis using adopt_Ret_pt(6)[OF c(5)] by (rule quiet_mono)
    qed
  qed
qed

lemma Emplace_returns:
  assumes wf: "heap_ok h" and v: "valid h v" and q: "quiet h"
    and p: "fst pos = buffer_m (data_m v)" "snd pos \<le> size_m v"
    and fit: "(if size_m v = 0 then 1 else 2 * size_m v) * sizeof_T h < 2 ^ 64"
  shows "\<exists>h' v' it. Emplace nt tr h v pos x = Ret (h', v') it \<and> quiet h'"
proof -
  have "\<exists>h' v' it. Emplace nt tr h v pos x = Ret (h', v') it"
  proof (cases "pos = cend v")
    case True
    from push_back_body_returns[OF wf v q fit] obtain h1 v1 where
      "push_back_body nt tr h v x = Ret (h1, v1) ()" by blast
    then show ?thesis
      unfolding Emplace_end_eq[OF p True] EmplaceBack_def by simp
  next
    case ne: False
    show ?thesis
    proof (cases "size_m v < capacity_m (data_m v)")
      case True
      from Emplace_in_place_returns[OF v q p ne True] show ?thesis by blast
    next
      case False
      from Emplace_realloc_returns[OF wf v q p ne False fit] show ?thesis .
    qed
  qed
  then obtain h' v' it where r: "Emplace nt tr h v pos x = Ret (h', v') it" by blast
  from Emplace_quiet[OF wf v q r] r show ?thesis by blast
qed

lemma PopBack_returns:
  assumes "valid h v" and "0 < size_m v"
  shows "\<exists>h' v'. PopBack h v = Ret (h', v') ()"
proof -
  from valid_cells[OF assms(1), of "size_m v - 1"] assms(2) obtain h1 where
    "destroy_at h (RawMemory_plus (data_m v) (size_m v - 1)) = Ret h1 ()"
    by (auto simp: destroy_at_def RawMemory_plus_def)
  with assms(2) show ?thesis by (simp add: PopBack_def with_vec_def)
qed

lemma Resize_shrink_returns:
  assumes "valid h v" and "new_size \<le> size_m v"
  shows "\<exists>h' v'. Resize tr h v new_size = Ret (h', v') ()"
proof (cases "new_size < size_m v")
  case True
  have "\<exists>h1. destroy_n h (buffer_m (data_m v), new_size) (size_m v - new_size) = Ret h1 ()"
  proof (rule destroy_n_returns)
    fix i assume "i < size_m v - new_size"
    then show "cells h (buffer_m (data_m v), new_size + i) \<noteq> None"
      using valid_cells[OF assms(1), of "new_size + i"] by simp
  qed
  with True show ?thesis by (auto simp: Resize_def RawMemory_plus_def)
next
  case False
  with assms(2) have eq: "new_size = size_m v" by simp
  from assms(1) have "size_m v \<le> capacity_m (data_m v)" by (simp add: valid_def)
  then have "Reserve tr h v new_size = Ret (h, v) ()" by (simp add: Reserve_noop eq)
  then show ?thesis by (simp add: Resize_def eq)
qed

subsection \<open>Insert and Erase\<close>

text \<open>
  C7.  Inserting a value at position \<open>p\<close> and then erasing at position \<open>p\<close> gives back the
  element sequence and the length the vector had, for either overload of \<^verbatim>\<open>Insert\<close>,
  whenever both calls return; and they return when nothing they call throws (on a heap
  whose blocks are smaller than \<open>2\<^sup>6\<^sup>3\<close> bytes the byte count they ask for does not wrap).
  (Copies, moves and assignments of the model give the target the value of the source.)
\<close>

theorem Insert_Erase_round_trip:
  assumes "wf_heap h" and "valid h v" and "p \<le> Size v"
  shows "(quiet h \<longrightarrow>
            (\<exists>h1 v1 it h2 v2 it2.
               Insert tr h v (buffer_m (data_m v), p) x = Ret (h1, v1) it \<and>
               Erase tr h1 v1 (buffer_m (data_m v1), p) = Ret (h2, v2) it2) \<and>
            (\<exists>h1 v1 it h2 v2 it2.
               Insert_move tr h v (buffer_m (data_m v), p) x = Ret (h1, v1) it \<and>
               Erase tr h1 v1 (buffer_m (data_m v1), p) = Ret (h2, v2) it2)) \<and>
         ((Insert tr h v (buffer_m (data_m v), p) x = Ret (ha, va) it \<or>
           Insert_move tr h v (buffer_m (data_m v), p) x = Ret (ha, va) it) \<and>
          Erase tr ha va (buffer_m (data_m va), p) = Ret (hb, vb) itb \<longrightarrow>
            elems hb vb = elems h v \<and> Size vb = Size v \<and> it = (buffer_m (data_m va), p))"
proof -
  note ok = wf_heap_ok[OF assms(1)]
  have ps: "p \<le> size_m v" using assms(3) by (simp add: Size_def)
  have run: "\<exists>h1 v1 it h2 v2 it2.
               Emplace nt tr h v (buffer_m (data_m v), p) x = Ret (h1, v1) it \<and>
               Erase tr h1 v1 (buffer_m (data_m v1), p) = Ret (h2, v2) it2"
    if q: "quiet h" for nt
  proof -
    from Emplace_returns[OF ok assms(2) q _ _ wf_heap_fit[OF assms(1,2)],
        of "(buffer_m (data_m v), p)" nt tr x] ps
    obtain h1 v1 it where
      e: "Emplace nt tr h v (buffer_m (data_m v), p) x = Ret (h1, v1) it" and q1: "quiet h1"
      by auto
    note f = Emplace_Ret[OF ok assms(2) e]
    from f(1) ps have "p < size_m v1" by simp
    from Erase_returns[OF f(3) q1, of "(buffer_m (data_m v1), p)" tr] this e show ?thesis
      by auto
  qed
  have rt: "elems hb vb = elems h v \<and> Size vb = Size v \<and> it = (buffer_m (data_m va), p)"
    if i: "Insert tr h v (buffer_m (data_m v), p) x = Ret (ha, va) it \<or>
           Insert_move tr h v (buffer_m (data_m v), p) x = Ret (ha, va) it"
      and r: "Erase tr ha va (buffer_m (data_m va), p) = Ret (hb, vb) itb"
  proof -
    from i obtain nt where
      e: "Emplace nt tr h v (buffer_m (data_m v), p) x = Ret (ha, va) it"
      by (auto simp: Insert_def Insert_move_def)
    note f = Emplace_Ret[OF ok assms(2) e]
    note g = Erase_elems[OF f(3) r]
    have len: "length (take p (elems h v)) = p" using assms(3) by (simp add: Size_def)
    have "elems hb vb = take p (elems h v) @ drop p (elems h v)"
      using g(1) f(2) len by simp
    then have "elems hb vb = elems h v" by simp
    moreover have "Size vb = Size v" using g(2) f(1) by (simp add: Size_def)
    moreover have "it = (buffer_m (data_m va), p)" using f(5) by simp
    ultimately show ?thesis by blast
  qed
  from run[of False] run[of "nothrow_move_constructible tr"] rt show ?thesis
    unfolding Insert_def Insert_move_def by blast
qed

theorem Insert_Erase_round_trip_witness:
  "wf_heap heap12 \<and> valid heap12 vec12 \<and> (1::nat) \<le> Size vec12 \<and> quiet heap12 \<and>
   elems heap12 vec12 = [Some 1, Some 2] \<and>
   (\<exists>h1 v1 it h2 v2 it2.
      Insert copying heap12 vec12 (buffer_m (data_m vec12), 1) 9 = Ret (h1, v1) it \<and>
      elems h1 v1 = [Some 1, Some 9, Some 2] \<and>
      Erase copying h1 v1 (buffer_m (data_m v1), 1) = Ret (h2, v2) it2 \<and>
      elems h2 v2 = [Some 1, Some 2] \<and> Size v2 = 2) \<and>
   (\<exists>h1 v1 it h2 v2 it2.
      Insert_move copying heap12 vec12 (buffer_m (data_m vec12), 1) 9 = Ret (h1, v1) it \<and>
      Erase copying h1 v1 (buffer_m (data_m v1), 1) = Ret (h2, v2) it2 \<and>
      elems h2 v2 = [Some 1, Some 2] \<and> Size v2 = 2)"
proof -
  have p: "(1::nat) \<le> Size vec12" and s: "Size vec12 = 2"
    and l: "elems heap12 vec12 = [Some 1, Some 2]"
    by code_simp+
  note t = Insert_Erase_round_trip[OF wf_heap12 valid_vec12 p, where tr = copying and x = 9]
  from t[THEN conjunct1] quiet_heap12 obtain h1 v1 it h2 v2 it2 where
    i: "Insert copying heap12 vec12 (buffer_m (data_m vec12), 1) 9 = Ret (h1, v1) it" and
    e: "Erase copying h1 v1 (buffer_m (data_m v1), 1) = Ret (h2, v2) it2"
    by blast
  from t[THEN conjunct1] quiet_heap12 obtain h3 v3 it3 h4 v4 it4 where
    i': "Insert_move copying heap12 vec12 (buffer_m (data_m vec12), 1) 9 = Ret (h3, v3) it3" and
    e': "Erase copying h3 v3 (buffer_m (data_m v3), 1) = Ret (h4, v4) it4"
    by blast
  have "case Insert copying heap12 vec12 (buffer_m (data_m vec12), 1) 9 of
          Ret (h1, v1) it \<Rightarrow> elems h1 v1 = [Some 1, Some 9, Some 2] | _ \<Rightarrow> False"
    by code_simp
  with i have l1: "elems h1 v1 = [Some 1, Some 9, Some 2]" by simp
  from t[where ha = h1 and va = v1 and it = it and hb = h2 and vb = v2 and itb = it2,
         THEN conjunct2] i e l s
  have 1: "elems h2 v2 = [Some 1, Some 2] \<and> Size v2 = 2" by simp
  from t[where ha = h3 and va = v3 and it = it3 and hb = h4 and vb = v4 and itb = it4,
         THEN conjunct2] i' e' l s
  have 2: "elems h4 v4 = [Some 1, Some 2] \<and> Size v4 = 2" by simp
  from wf_heap12 valid_vec12 p quiet_heap12 i l1 e l i' e' 1 2 show ?thesis by blast
qed

subsection \<open>Growth by doubling\<close>

text \<open>
  C9.  A call of \<^verbatim>\<open>PushBack\<close>, \<^verbatim>\<open>EmplaceBack\<close> or \<^verbatim>\<open>Emplace\<close> before the end, on a
  vector whose length is its capacity, leaves on return the capacity 1 when the length was
  0 and twice the length otherwise; the call returns when nothing it calls throws (on a
  heap whose blocks are smaller than \<open>2\<^sup>6\<^sup>3\<close> bytes the byte count it asks for does not
  wrap).
\<close>

theorem growth_doubles_capacity:
  assumes "Size v = Capacity v"
  shows "(wf_heap h \<and> valid h v \<and> quiet h \<longrightarrow>
            (\<exists>h' v'. PushBack tr h v x = Ret (h', v') ()) \<and>
            (\<exists>h' v'. PushBack_move tr h v x = Ret (h', v') ()) \<and>
            (\<exists>h' v' r. EmplaceBack nt tr h v x = Ret (h', v') r) \<and>
            (fst pos = buffer_m (data_m v) \<and> snd pos < Size v \<longrightarrow>
               (\<exists>h' v' r. Emplace nt tr h v pos x = Ret (h', v') r))) \<and>
         (PushBack tr h v x = Ret (h', v') u \<longrightarrow>
            Capacity v' = (if Size v = 0 then 1 else 2 * Size v)) \<and>
         (PushBack_move tr h v x = Ret (h', v') u \<longrightarrow>
            Capacity v' = (if Size v = 0 then 1 else 2 * Size v)) \<and>
         (EmplaceBack nt tr h v x = Ret (h', v') r \<longrightarrow>
            Capacity v' = (if Size v = 0 then 1 else 2 * Size v)) \<and>
         (pos \<noteq> cend v \<and> Emplace nt tr h v pos x = Ret (h', v') r \<longrightarrow>
            Capacity v' = (if Size v = 0 then 1 else 2 * Size v))"
proof -
  from assms have a: "size_m v = capacity_m (data_m v)" by (simp add: Size_def Capacity_def)
  let ?c = "if Size v = 0 then 1 else 2 * Size v"
  have 0: "(\<exists>h' v'. PushBack tr h v x = Ret (h', v') ()) \<and>
           (\<exists>h' v'. PushBack_move tr h v x = Ret (h', v') ()) \<and>
           (\<exists>h' v' r. EmplaceBack nt tr h v x = Ret (h', v') r) \<and>
           (fst pos = buffer_m (data_m v) \<and> snd pos < Size v \<longrightarrow>
              (\<exists>h' v' r. Emplace nt tr h v pos x = Ret (h', v') r))"
    if w: "wf_heap h" "valid h v" "quiet h"
  proof -
    note ok = wf_heap_ok[OF w(1)]
    note fit = wf_heap_fit[OF w(1,2)]
    note pb = push_back_body_returns[OF ok w(2,3) fit]
    from pb[of False tr x] have "\<exists>h' v'. PushBack tr h v x = Ret (h', v') ()"
      by (simp add: PushBack_def)
    moreover from pb[of "nothrow_move_constructible tr" tr x]
    have "\<exists>h' v'. PushBack_move tr h v x = Ret (h', v') ()"
      by (simp add: PushBack_move_def)
    moreover from pb[of nt tr x] have "\<exists>h' v' r. EmplaceBack nt tr h v x = Ret (h', v') r"
      by (auto simp: EmplaceBack_def)
    moreover have "\<exists>h' v' r. Emplace nt tr h v pos x = Ret (h', v') r"
      if "fst pos = buffer_m (data_m v)" "snd pos < Size v"
      using Emplace_returns[OF ok w(2,3) that(1) _ fit, of nt tr x] that(2)
      by (auto simp: Size_def)
    ultimately show ?thesis by blast
  qed
  have 1: "Capacity v' = ?c" if "PushBack tr h v x = Ret (h', v') u"
    using push_back_body_capacity[OF a, of False tr h x h' v' u] that
    by (simp add: PushBack_def Size_def Capacity_def)
  have 2: "Capacity v' = ?c" if "PushBack_move tr h v x = Ret (h', v') u"
    using push_back_body_capacity[OF a, of "nothrow_move_constructible tr" tr h x h' v' u] that
    by (simp add: PushBack_move_def Size_def Capacity_def)
  have 3: "Capacity v' = ?c" if e: "EmplaceBack nt tr h v x = Ret (h', v') r"
  proof -
    from e obtain u' where "push_back_body nt tr h v x = Ret (h', v') u'"
      by (auto simp: EmplaceBack_def split: res.splits)
    from push_back_body_capacity[OF a this] show ?thesis
      by (simp add: Size_def Capacity_def)
  qed
  have 4: "Capacity v' = ?c" if "pos \<noteq> cend v" and "Emplace nt tr h v pos x = Ret (h', v') r"
    using Emplace_capacity[OF a that] by (simp add: Size_def Capacity_def)
  from 0 1 2 3 4 show ?thesis by blast
qed

theorem growth_doubles_capacity_witness:
  "Size vec12 = Capacity vec12 \<and> wf_heap heap12 \<and> valid heap12 vec12 \<and> quiet heap12 \<and>
   Size vec12 = 2 \<and>
   (\<exists>h' v'. PushBack copying heap12 vec12 3 = Ret (h', v') () \<and> Capacity v' = 4) \<and>
   (\<exists>h' v'. PushBack_move copying heap12 vec12 3 = Ret (h', v') () \<and> Capacity v' = 4) \<and>
   (\<exists>h' v' r. EmplaceBack False copying heap12 vec12 3 = Ret (h', v') r \<and> Capacity v' = 4) \<and>
   (\<exists>h' v' r. fst (2 :: nat, 1 :: nat) = buffer_m (data_m vec12) \<and>
       snd (2 :: nat, 1 :: nat) < Size vec12 \<and>
       (2, 1) \<noteq> cend vec12 \<and> Emplace False copying heap12 vec12 (2, 1) 9 = Ret (h', v') r \<and>
       Capacity v' = 4)"
proof -
  have a: "Size vec12 = Capacity vec12" and s: "Size vec12 = 2" and ne: "(2, 1) \<noteq> cend vec12"
    and ps: "fst (2 :: nat, 1 :: nat) = buffer_m (data_m vec12)"
      "snd (2 :: nat, 1 :: nat) < Size vec12"
    by code_simp+
  note t = growth_doubles_capacity[OF a]
  note w = wf_heap12 valid_vec12 quiet_heap12
  note t3 = t[where h = heap12 and tr = copying and x = 3 and nt = False]
  from t3[THEN conjunct1] w
  obtain h1 v1 where p: "PushBack copying heap12 vec12 3 = Ret (h1, v1) ()"
    by blast
  from t3[THEN conjunct1] w
  obtain h3 v3 where pm: "PushBack_move copying heap12 vec12 3 = Ret (h3, v3) ()"
    by blast
  from t3[THEN conjunct1] w
  obtain h4 v4 r4 where eb: "EmplaceBack False copying heap12 vec12 3 = Ret (h4, v4) r4"
    by blast
  from t[where h = heap12 and tr = copying and x = 9 and nt = False and pos = "(2, 1)",
         THEN conjunct1] w ps
  obtain h2 v2 r where e: "Emplace False copying heap12 vec12 (2, 1) 9 = Ret (h2, v2) r"
    by blast
  from t3[where h' = h1 and v' = v1 and u = "()", THEN conjunct2] p s
  have 1: "Capacity v1 = 4" by simp
  from t3[where h' = h3 and v' = v3 and u = "()", THEN conjunct2] pm s
  have 3: "Capacity v3 = 4" by simp
  from t3[where h' = h4 and v' = v4 and r = r4, THEN conjunct2] eb s
  have 4: "Capacity v4 = 4" by simp
  from t[where tr = copying and h = heap12 and x = 9 and h' = h2 and v' = v2 and r = r
        and nt = False and pos = "(2, 1)", THEN conjunct2] e ne s
  have 2: "Capacity v2 = 4" by simp
  from a s ne ps w p pm eb e 1 2 3 4 show ?thesis by blast
qed

subsection \<open>Shrinking\<close>

text \<open>
  C10.  \<^verbatim>\<open>PopBack\<close>, \<^verbatim>\<open>Erase\<close>, \<^verbatim>\<open>Resize\<close> to at most the current length, and the copy
  assignment from a source that fits the capacity (or from the vector itself) never
  reallocate: whether the call returns or throws, the vector keeps its storage block and
  its capacity, and the allocator is not called.  \<^verbatim>\<open>PopBack\<close> on a vector that is not
  empty, \<^verbatim>\<open>Erase\<close> at a position that holds an element and such a \<^verbatim>\<open>Resize\<close> return
  when nothing they call throws.  A call outside its precondition (\<^verbatim>\<open>PopBack\<close> on an
  empty vector, \<^verbatim>\<open>Erase\<close> at a position that holds no element) is undefined and has no
  outcome here.
\<close>

theorem shrinking_keeps_storage:
  assumes "Size v \<le> Capacity v"
  shows "(valid h v \<and> quiet h \<longrightarrow>
            (0 < Size v \<longrightarrow> (\<exists>h' v'. PopBack h v = Ret (h', v') ())) \<and>
            (fst pos = buffer_m (data_m v) \<and> snd pos < Size v \<longrightarrow>
               (\<exists>h' v' it. Erase tr h v pos = Ret (h', v') it)) \<and>
            (new_size \<le> Size v \<longrightarrow> (\<exists>h' v'. Resize tr h v new_size = Ret (h', v') ()))) \<and>
         (PopBack h v = Ret (h', v') u \<or> PopBack h v = Exc (h', v') e \<longrightarrow>
            data_m v' = data_m v \<and> blocks h' = blocks h \<and> allocs h' = allocs h) \<and>
         (Erase tr h v pos = Ret (h', v') it \<or> Erase tr h v pos = Exc (h', v') e \<longrightarrow>
            data_m v' = data_m v \<and> blocks h' = blocks h \<and> allocs h' = allocs h) \<and>
         (new_size \<le> Size v \<and>
          (Resize tr h v new_size = Ret (h', v') u \<or> Resize tr h v new_size = Exc (h', v') e) \<longrightarrow>
            data_m v' = data_m v \<and> blocks h' = blocks h \<and> allocs h' = allocs h) \<and>
         (Size rhs \<le> Capacity v \<and>
          (Vector_copy_assign h v (Other rhs) = Ret (h', v') u \<or>
           Vector_copy_assign h v (Other rhs) = Exc (h', v') e) \<longrightarrow>
            data_m v' = data_m v \<and> blocks h' = blocks h \<and> allocs h' = allocs h) \<and>
         (Vector_copy_assign h v Self = Ret (h', v') u \<or>
          Vector_copy_assign h v Self = Exc (h', v') e \<longrightarrow> h' = h \<and> v' = v)"
proof -
  from assms have a: "size_m v \<le> capacity_m (data_m v)" by (simp add: Size_def Capacity_def)
  have 0: "(0 < Size v \<longrightarrow> (\<exists>h' v'. PopBack h v = Ret (h', v') ())) \<and>
           (fst pos = buffer_m (data_m v) \<and> snd pos < Size v \<longrightarrow>
              (\<exists>h' v' it. Erase tr h v pos = Ret (h', v') it)) \<and>
           (new_size \<le> Size v \<longrightarrow> (\<exists>h' v'. Resize tr h v new_size = Ret (h', v') ()))"
    if w: "valid h v" "quiet h"
  proof -
    have "\<exists>h' v'. PopBack h v = Ret (h', v') ()" if "0 < Size v"
      using PopBack_returns[OF w(1)] that by (simp add: Size_def)
    moreover have "\<exists>h' v' it. Erase tr h v pos = Ret (h', v') it"
      if "fst pos = buffer_m (data_m v)" "snd pos < Size v"
      using Erase_returns[OF w that(1), of tr] that(2) by (auto simp: Size_def)
    moreover have "\<exists>h' v'. Resize tr h v new_size = Ret (h', v') ()" if "new_size \<le> Size v"
      using Resize_shrink_returns[OF w(1), of new_size tr] that by (simp add: Size_def)
    ultimately show ?thesis by blast
  qed
  have 1: "data_m v' = data_m v \<and> blocks h' = blocks h \<and> allocs h' = allocs h"
    if "PopBack h v = Ret (h', v') u \<or> PopBack h v = Exc (h', v') e"
    using PopBack_storage[OF that] by (simp add: evolves_def)
  have 2: "data_m v' = data_m v \<and> blocks h' = blocks h \<and> allocs h' = allocs h"
    if "Erase tr h v pos = Ret (h', v') it \<or> Erase tr h v pos = Exc (h', v') e"
    using Erase_storage[OF that] by (simp add: evolves_def)
  have 3: "data_m v' = data_m v \<and> blocks h' = blocks h \<and> allocs h' = allocs h"
    if "new_size \<le> Size v"
      and "Resize tr h v new_size = Ret (h', v') u \<or> Resize tr h v new_size = Exc (h', v') e"
    using Resize_storage[OF a _ that(2)] that(1) by (simp add: evolves_def Size_def)
  have 4: "data_m v' = data_m v \<and> blocks h' = blocks h \<and> allocs h' = allocs h"
    if "Size rhs \<le> Capacity v"
      and "Vector_copy_assign h v (Other rhs) = Ret (h', v') u \<or>
           Vector_copy_assign h v (Other rhs) = Exc (h', v') e"
    using Vector_copy_assign_storage[OF _ that(2)] that(1)
    by (simp add: evolves_def Size_def Capacity_def)
  have 5: "h' = h \<and> v' = v"
    if "Vector_copy_assign h v Self = Ret (h', v') u \<or>
        Vector_copy_assign h v Self = Exc (h', v') e"
    using that by (simp add: Vector_copy_assign_def)
  from 0 1 2 3 4 5 show ?thesis by blast
qed

theorem shrinking_keeps_storage_witness:
  "Size vec12 \<le> Capacity vec12 \<and> valid heap12 vec12 \<and> quiet heap12 \<and>
   (\<exists>h' v'. 0 < Size vec12 \<and> PopBack heap12 vec12 = Ret (h', v') () \<and>
      data_m v' = data_m vec12 \<and> blocks h' = blocks heap12 \<and> allocs h' = allocs heap12) \<and>
   (\<exists>h' v' it. fst (2 :: nat, 0 :: nat) = buffer_m (data_m vec12) \<and>
      snd (2 :: nat, 0 :: nat) < Size vec12 \<and>
      Erase copying heap12 vec12 (2, 0) = Ret (h', v') it \<and>
      data_m v' = data_m vec12 \<and> blocks h' = blocks heap12 \<and> allocs h' = allocs heap12) \<and>
   (\<exists>h' v'. (1::nat) \<le> Size vec12 \<and> Resize copying heap12 vec12 1 = Ret (h', v') () \<and>
      data_m v' = data_m vec12 \<and> blocks h' = blocks heap12 \<and> allocs h' = allocs heap12) \<and>
   Size vec_a \<le> Capacity vec_a \<and>
   (\<exists>h' v'. Size vec_b \<le> Capacity vec_a \<and>
      Vector_copy_assign heap_ab vec_a (Other vec_b) = Ret (h', v') () \<and>
      elems h' v' = [Some 9] \<and>
      data_m v' = data_m vec_a \<and> blocks h' = blocks heap_ab \<and> allocs h' = allocs heap_ab) \<and>
   (\<exists>h' v'. Vector_copy_assign heap_ab vec_a Self = Ret (h', v') () \<and>
      h' = heap_ab \<and> v' = vec_a)"
proof -
  have a: "Size vec12 \<le> Capacity vec12" and s: "(1::nat) \<le> Size vec12" "0 < Size vec12"
    and ps: "fst (2 :: nat, 0 :: nat) = buffer_m (data_m vec12)"
      "snd (2 :: nat, 0 :: nat) < Size vec12"
    and b: "Size vec_a \<le> Capacity vec_a" "Size vec_b \<le> Capacity vec_a"
    by code_simp+
  note t = shrinking_keeps_storage[OF a]
  note w = valid_vec12 quiet_heap12
  from t[where h = heap12, THEN conjunct1] w s(2)
  obtain h1 v1 where p: "PopBack heap12 vec12 = Ret (h1, v1) ()"
    by blast
  from t[where h = heap12 and tr = copying and pos = "(2, 0)", THEN conjunct1] w ps
  obtain h2 v2 it where e: "Erase copying heap12 vec12 (2, 0) = Ret (h2, v2) it"
    by blast
  from t[where h = heap12 and tr = copying and new_size = 1, THEN conjunct1] w s(1)
  obtain h3 v3 where r: "Resize copying heap12 vec12 1 = Ret (h3, v3) ()"
    by blast
  have "case Vector_copy_assign heap_ab vec_a (Other vec_b) of
          Ret (h', v') u \<Rightarrow> elems h' v' = [Some 9] | _ \<Rightarrow> False"
    by code_simp
  then obtain h4 v4 where c: "Vector_copy_assign heap_ab vec_a (Other vec_b) = Ret (h4, v4) ()"
    and l: "elems h4 v4 = [Some 9]"
    by (auto split: res.splits)
  from t[where h = heap12 and h' = h1 and v' = v1 and u = "()", THEN conjunct2] p
  have 1: "data_m v1 = data_m vec12 \<and> blocks h1 = blocks heap12 \<and> allocs h1 = allocs heap12"
    by blast
  from t[where h = heap12 and h' = h2 and v' = v2 and tr = copying and pos = "(2, 0)" and it = it,
         THEN conjunct2] e
  have 2: "data_m v2 = data_m vec12 \<and> blocks h2 = blocks heap12 \<and> allocs h2 = allocs heap12"
    by blast
  from t[where h = heap12 and h' = h3 and v' = v3 and u = "()" and tr = copying and new_size = 1,
         THEN conjunct2] r s(1)
  have 3: "data_m v3 = data_m vec12 \<and> blocks h3 = blocks heap12 \<and> allocs h3 = allocs heap12"
    by blast
  from shrinking_keeps_storage[OF b(1), where h = heap_ab and h' = h4 and v' = v4 and u = "()"
         and rhs = vec_b, THEN conjunct2] c b(2)
  have 4: "data_m v4 = data_m vec_a \<and> blocks h4 = blocks heap_ab \<and> allocs h4 = allocs heap_ab"
    by blast
  have "case Vector_copy_assign heap_ab vec_a Self of Ret s u \<Rightarrow> True | _ \<Rightarrow> False"
    by code_simp
  then obtain h5 v5 where sf: "Vector_copy_assign heap_ab vec_a Self = Ret (h5, v5) ()"
    by (auto split: res.splits)
  from shrinking_keeps_storage[OF b(1), where h = heap_ab and h' = h5 and v' = v5 and u = "()",
         THEN conjunct2] sf
  have 5: "h5 = heap_ab \<and> v5 = vec_a"
    by blast
  from a w s ps b p e r c l sf 1 2 3 4 5 show ?thesis by blast
qed

end
